theory Spec2Isabelle
  imports Complex_Main "HOL-Library.Sublist"
begin

section \<open>JavaScript strings and numbers\<close>

text \<open>
  A JavaScript string is a sequence of UTF-16 code units, so it is modelled as a list of
  natural numbers. The ASCII literals of the source are written \<open>str ''...''\<close>; the
  Devanagari literals are written out as their code units (all of them lie in the basic
  plane, one unit per character). A JavaScript number is modelled as a real: every finite
  double is one, and the decimal literals \<open>0.7\<close> and \<open>0.1\<close>, which are not doubles, are
  given the value of the double they denote.
\<close>

type_synonym jsstring = "nat list"

definition str :: "string \<Rightarrow> jsstring" where
  "str s = map of_char s"

text \<open>\<open>s.startsWith(p)\<close>\<close>

definition startsWith :: "jsstring \<Rightarrow> jsstring \<Rightarrow> bool" where
  "startsWith s p = (take (length p) s = p)"

text \<open>\<open>s.includes(t)\<close>: \<open>t\<close> occurs in \<open>s\<close> at some position.\<close>

fun js_includes :: "jsstring \<Rightarrow> jsstring \<Rightarrow> bool" where
  "js_includes [] t = (t = [])"
| "js_includes (c # s) t = (startsWith (c # s) t \<or> js_includes s t)"

text \<open>What "contains as a substring" means: \<open>t\<close> is a contiguous part of \<open>s\<close>.\<close>

definition contains_substring :: "jsstring \<Rightarrow> jsstring \<Rightarrow> bool" where
  "contains_substring s t = (\<exists>ps ss. s = ps @ t @ ss)"

text \<open>
  \<open>s.trim()\<close> removes the leading and trailing white space and line terminators of
  ECMAScript: TAB, LF, VT, FF, CR, SP, NBSP, the space separators of Unicode, LS, PS and
  the byte order mark.
\<close>

definition isWhiteSpace :: "nat \<Rightarrow> bool" where
  "isWhiteSpace c = (c \<in> {0x0009, 0x000A, 0x000B, 0x000C, 0x000D, 0x0020, 0x00A0, 0x1680,
     0x2000, 0x2001, 0x2002, 0x2003, 0x2004, 0x2005, 0x2006, 0x2007, 0x2008, 0x2009, 0x200A,
     0x2028, 0x2029, 0x202F, 0x205F, 0x3000, 0xFEFF})"

definition trim :: "jsstring \<Rightarrow> jsstring" where
  "trim s = rev (dropWhile isWhiteSpace (rev (dropWhile isWhiteSpace s)))"

text \<open>
  \<open>s.toLowerCase()\<close> is the case conversion of Unicode, which no definition of this
  size can give; every function that calls it takes it as its first argument. The
  conversion restricted to the letters A to Z is used where a concrete one is needed.
\<close>

definition lower_ascii :: "jsstring \<Rightarrow> jsstring" where
  "lower_ascii s = map (\<lambda>c. if 65 \<le> c \<and> c \<le> 90 then c + 32 else c) s"

text \<open>The decimal rendering of a natural number, as a template literal gives it.\<close>

fun digits :: "nat \<Rightarrow> jsstring" where
  "digits n = (if n < 10 then [48 + n] else digits (n div 10) @ [48 + n mod 10])"

text \<open>The doubles that the literals \<open>0.7\<close> and \<open>0.1\<close> denote.\<close>

definition num_0_7 :: real where
  "num_0_7 = 3152519739159347 / 4503599627370496"

definition num_0_1 :: real where
  "num_0_1 = 3602879701896397 / 36028797018963968"

text \<open>\<open>prev.map((item, index) => index === k ? f(item) : item)\<close>\<close>

definition map_at :: "nat \<Rightarrow> ('a \<Rightarrow> 'a) \<Rightarrow> 'a list \<Rightarrow> 'a list" where
  "map_at k f xs = map (\<lambda>(index, item). if index = k then f item else item) (enumerate 0 xs)"

text \<open>A toast of the \<open>useToast\<close> hook, as the components call it.\<close>

record toast =
  title :: jsstring
  description :: jsstring
  destructive :: bool


section \<open>BreedResults: confidence levels\<close>

record ConfidenceInfo =
  level :: jsstring
  label :: jsstring
  className :: jsstring

definition getConfidenceLevel :: "real \<Rightarrow> ConfidenceInfo" where
  "getConfidenceLevel confidence =
     (if confidence \<ge> 80 then
        \<lparr>level = str ''high'', label = str ''High Confidence'', className = str ''confidence-high''\<rparr>
      else if confidence \<ge> 60 then
        \<lparr>level = str ''medium'', label = str ''Medium Confidence'', className = str ''confidence-medium''\<rparr>
      else
        \<lparr>level = str ''low'', label = str ''Low Confidence'', className = str ''confidence-low''\<rparr>)"


section \<open>BreedDatabase: the search filter\<close>

record Breed =
  id' :: jsstring
  name :: jsstring
  hindiName :: jsstring
  type :: jsstring
  region :: jsstring
  characteristics :: "jsstring list"
  avgWeight :: jsstring
  milkYield :: jsstring
  color :: jsstring

definition breedDatabase :: "Breed list" where
  "breedDatabase = [
     \<lparr>id' = str ''1'', name = str ''Gir'', hindiName = [0x0917, 0x0940, 0x0930],
      type = str ''cattle'', region = str ''Gujarat, Rajasthan'',
      characteristics = [str ''Drought resistant'', str ''High milk yield'', str ''Distinctive forehead''],
      avgWeight = str ''350-400 kg'', milkYield = str ''10-15 L/day'',
      color = str ''Light to dark red with white patches''\<rparr>,
     \<lparr>id' = str ''2'', name = str ''Sahiwal'',
      hindiName = [0x0938, 0x093E, 0x0939, 0x0940, 0x0935, 0x093E, 0x0932],
      type = str ''cattle'', region = str ''Punjab, Haryana'',
      characteristics = [str ''Heat tolerant'', str ''Good milk producer'', str ''Docile nature''],
      avgWeight = str ''300-400 kg'', milkYield = str ''8-12 L/day'',
      color = str ''Light to medium brown''\<rparr>,
     \<lparr>id' = str ''3'', name = str ''Red Sindhi'',
      hindiName = [0x0932, 0x093E, 0x0932, 0x0020, 0x0938, 0x093F, 0x0902, 0x0927, 0x0940],
      type = str ''cattle'', region = str ''Maharashtra, Karnataka'',
      characteristics = [str ''Heat resistant'', str ''Good grazer'', str ''Hardy breed''],
      avgWeight = str ''300-350 kg'', milkYield = str ''6-10 L/day'',
      color = str ''Dark red to light red''\<rparr>,
     \<lparr>id' = str ''4'', name = str ''Murrah'',
      hindiName = [0x092E, 0x0941, 0x0930, 0x094D, 0x0930, 0x093E],
      type = str ''buffalo'', region = str ''Haryana, Punjab, UP'',
      characteristics = [str ''High milk yield'', str ''Strong build'', str ''Curved horns''],
      avgWeight = str ''500-600 kg'', milkYield = str ''12-18 L/day'',
      color = str ''Jet black''\<rparr>,
     \<lparr>id' = str ''5'', name = str ''Nili Ravi'',
      hindiName = [0x0928, 0x0940, 0x0932, 0x0940, 0x0020, 0x0930, 0x093E, 0x0935, 0x0940],
      type = str ''buffalo'', region = str ''Punjab, Haryana'',
      characteristics = [str ''High milk yield'', str ''Wall eyes'', str ''White markings''],
      avgWeight = str ''450-550 kg'', milkYield = str ''15-20 L/day'',
      color = str ''Black with white markings''\<rparr>,
     \<lparr>id' = str ''6'', name = str ''Jaffarabadi'',
      hindiName = [0x091C, 0x093E, 0x092B, 0x0930, 0x093E, 0x092C, 0x093E, 0x0926, 0x0940],
      type = str ''buffalo'', region = str ''Gujarat'',
      characteristics = [str ''Large size'', str ''Curved horns'', str ''Good draft animal''],
      avgWeight = str ''600-800 kg'', milkYield = str ''8-12 L/day'',
      color = str ''Black''\<rparr>]"

definition matchesSearch :: "(jsstring \<Rightarrow> jsstring) \<Rightarrow> jsstring \<Rightarrow> Breed \<Rightarrow> bool" where
  "matchesSearch toLowerCase searchTerm breed =
     (js_includes (toLowerCase (name breed)) (toLowerCase searchTerm) \<or>
      js_includes (hindiName breed) searchTerm \<or>
      js_includes (toLowerCase (region breed)) (toLowerCase searchTerm))"

definition matchesType :: "jsstring \<Rightarrow> Breed \<Rightarrow> bool" where
  "matchesType selectedType breed = (selectedType = str ''all'' \<or> type breed = selectedType)"

definition filteredBreeds :: "(jsstring \<Rightarrow> jsstring) \<Rightarrow> jsstring \<Rightarrow> jsstring \<Rightarrow> Breed list" where
  "filteredBreeds toLowerCase searchTerm selectedType =
     filter (\<lambda>breed. matchesSearch toLowerCase searchTerm breed \<and> matchesType selectedType breed)
       breedDatabase"


section \<open>VoiceCommands: the keyword lookup\<close>

record Command =
  id' :: jsstring
  english :: jsstring
  hindi :: jsstring
  action :: jsstring
  description :: jsstring

definition voiceCommands :: "Command list" where
  "voiceCommands = [
     \<lparr>id' = str ''take_photo'', english = str ''take photo'',
      hindi = [0x092B, 0x094B, 0x091F, 0x094B, 0x0020, 0x0932, 0x0947, 0x0902],
      action = str ''takePhoto'', description = str ''Capture a new image''\<rparr>,
     \<lparr>id' = str ''confirm_breed'', english = str ''confirm breed'',
      hindi = [0x0928, 0x0938, 0x094D, 0x0932, 0x0020, 0x0915, 0x0940, 0x0020, 0x092A, 0x0941,
               0x0937, 0x094D, 0x091F, 0x093F],
      action = str ''confirmBreed'', description = str ''Confirm the identified breed''\<rparr>,
     \<lparr>id' = str ''retake_photo'', english = str ''retake photo'',
      hindi = [0x0926, 0x094B, 0x092C, 0x093E, 0x0930, 0x093E, 0x0020, 0x092B, 0x094B, 0x091F,
               0x094B, 0x0020, 0x0932, 0x0947, 0x0902],
      action = str ''retakePhoto'', description = str ''Capture image again''\<rparr>,
     \<lparr>id' = str ''need_correction'', english = str ''need correction'',
      hindi = [0x0938, 0x0941, 0x0927, 0x093E, 0x0930, 0x0020, 0x091A, 0x093E, 0x0939, 0x093F,
               0x090F],
      action = str ''needCorrection'', description = str ''Report incorrect identification''\<rparr>,
     \<lparr>id' = str ''start_camera'', english = str ''start camera'',
      hindi = [0x0915, 0x0948, 0x092E, 0x0930, 0x093E, 0x0020, 0x0936, 0x0941, 0x0930, 0x0942,
               0x0020, 0x0915, 0x0930, 0x0947, 0x0902],
      action = str ''startCamera'', description = str ''Activate camera''\<rparr>,
     \<lparr>id' = str ''go_back'', english = str ''go back'',
      hindi = [0x0935, 0x093E, 0x092A, 0x0938, 0x0020, 0x091C, 0x093E, 0x090F, 0x0902],
      action = str ''goBack'', description = str ''Navigate to previous screen''\<rparr>,
     \<lparr>id' = str ''help'', english = str ''help'',
      hindi = [0x092E, 0x0926, 0x0926],
      action = str ''showHelp'', description = str ''Show available commands''\<rparr>]"

datatype language = En | Hi

record utterance =
  text' :: jsstring
  lang :: jsstring

text \<open>
  The state of the component that \<open>processCommand\<close> reads and writes, with the calls it
  makes kept as lists: the arguments passed to \<open>onCommand\<close>, the utterances given to
  \<open>speechSynthesis.speak\<close>, and the toasts.
\<close>

record voice_state =
  lastCommand :: "jsstring option"
  confidence :: real
  language :: language
  voiceEnabled :: bool
  commands :: "jsstring list"
  spoken :: "utterance list"
  toasts :: "toast list"

text \<open>\<open>speak\<close>; \<open>hasSpeechSynthesis\<close> is \<open>'speechSynthesis' in window\<close>.\<close>

definition speak :: "bool \<Rightarrow> jsstring \<Rightarrow> language \<Rightarrow> voice_state \<Rightarrow> voice_state" where
  "speak hasSpeechSynthesis txt lng s =
     (if \<not> voiceEnabled s \<or> \<not> hasSpeechSynthesis then s
      else s\<lparr>spoken := spoken s @
             [\<lparr>text' = txt, lang = (if lng = Hi then str ''hi-IN'' else str ''en-US'')\<rparr>]\<rparr>)"

text \<open>The predicate of \<open>voiceCommands.find\<close>.\<close>

definition matchesCommand :: "(jsstring \<Rightarrow> jsstring) \<Rightarrow> jsstring \<Rightarrow> Command \<Rightarrow> bool" where
  "matchesCommand toLowerCase normalizedTranscript cmd =
     (js_includes normalizedTranscript (toLowerCase (english cmd)) \<or>
      js_includes normalizedTranscript (hindi cmd))"

text \<open>
  \<open>processCommand\<close>; \<open>hasOnCommand\<close> says whether the optional \<open>onCommand\<close> prop was given
  (the call is \<open>onCommand?.(matchedCommand.action)\<close>).
\<close>

definition processCommand ::
  "(jsstring \<Rightarrow> jsstring) \<Rightarrow> bool \<Rightarrow> bool \<Rightarrow> jsstring \<Rightarrow> real \<Rightarrow> voice_state \<Rightarrow> voice_state" where
  "processCommand toLowerCase hasOnCommand hasSpeechSynthesis transcript conf s =
     (let normalizedTranscript = trim (toLowerCase transcript);
          matchedCommand = find (matchesCommand toLowerCase normalizedTranscript) voiceCommands
      in case matchedCommand of
           Some cmd \<Rightarrow>
             if conf > num_0_7 then
               (let s1 = s\<lparr>lastCommand := Some (english cmd), confidence := conf\<rparr>;
                    s2 = (if hasOnCommand then s1\<lparr>commands := commands s1 @ [action cmd]\<rparr> else s1);
                    feedback = (if language s = Hi
                                then hindi cmd @ [0x0020, 0x002D, 0x0020, 0x0906, 0x0926, 0x0947,
                                                  0x0936, 0x0020, 0x092E, 0x093F, 0x0932, 0x093E]
                                else english cmd @ str '' - command received'');
                    s3 = speak hasSpeechSynthesis feedback (language s) s2
                in s3\<lparr>toasts := toasts s3 @
                     [\<lparr>title = str ''Voice Command'',
                       description = str ''Executed: '' @ Command.description cmd,
                       destructive = False\<rparr>]\<rparr>)
             else
               speak hasSpeechSynthesis
                 (if language s = Hi
                  then [0x0938, 0x092E, 0x091D, 0x0020, 0x0928, 0x0939, 0x0940, 0x0902, 0x0020,
                        0x0906, 0x092F, 0x093E, 0x002C, 0x0020, 0x0915, 0x0943, 0x092A, 0x092F,
                        0x093E, 0x0020, 0x0926, 0x094B, 0x0939, 0x0930, 0x093E, 0x090F, 0x0902]
                  else str ''Sorry, I didn't understand that'') (language s) s
         | None \<Rightarrow>
             speak hasSpeechSynthesis
               (if language s = Hi
                then [0x0938, 0x092E, 0x091D, 0x0020, 0x0928, 0x0939, 0x0940, 0x0902, 0x0020,
                      0x0906, 0x092F, 0x093E, 0x002C, 0x0020, 0x0915, 0x0943, 0x092A, 0x092F,
                      0x093E, 0x0020, 0x0926, 0x094B, 0x0939, 0x0930, 0x093E, 0x090F, 0x0902]
                else str ''Sorry, I didn't understand that'') (language s) s)"

text \<open>
  The claim's reading of a match: the lowercased, trimmed transcript contains the
  lowercased English keyword or the Hindi keyword of the command.
\<close>

definition has_keyword :: "(jsstring \<Rightarrow> jsstring) \<Rightarrow> jsstring \<Rightarrow> Command \<Rightarrow> bool" where
  "has_keyword toLowerCase transcript cmd =
     (contains_substring (trim (toLowerCase transcript)) (toLowerCase (english cmd)) \<or>
      contains_substring (trim (toLowerCase transcript)) (hindi cmd))"

definition voice_state0 :: voice_state where
  "voice_state0 = \<lparr>lastCommand = None, confidence = 0, language = En, voiceEnabled = True,
     commands = [], spoken = [], toasts = []\<rparr>"


section \<open>BatchProcessing: the queue\<close>

datatype status = Pending | Processing | Completed | Error

record BreedResult =
  breed :: jsstring
  confidence :: real

record Result = BreedResult +
  timestamp :: nat

record BatchItem =
  id' :: jsstring
  fileName :: jsstring
  imageUrl :: jsstring
  status :: status
  progress :: nat
  result :: "Result option"
  error :: "jsstring option"

text \<open>A \<open>File\<close> of the selected \<open>FileList\<close>: its name and its MIME type.\<close>

record File =
  name :: jsstring
  type :: jsstring

text \<open>
  A call of \<open>processNextItem\<close> that a timer holds. The callback closes over
  \<open>currentProcessingIndex\<close> and \<open>batchItems\<close> of the render that created it; \<open>position\<close> says
  where it continues: at its entry, or after the \<open>await\<close> that precedes the write of
  progress \<open>p\<close>.
\<close>

datatype pc = Entry | Resume nat

record task =
  due :: nat
  closureIndex :: nat
  closureItems :: "BatchItem list"
  position :: pc

text \<open>
  The state of the component (the survey fields, which no handler below reads, are left
  out), the toasts shown, the clock in milliseconds and the pending timers in the order in
  which they fire.
\<close>

record batch_state =
  batchItems :: "BatchItem list"
  isProcessing :: bool
  currentProcessingIndex :: nat
  toasts :: "toast list"
  clock :: nat
  timers :: "task list"

definition batch_state0 :: batch_state where
  "batch_state0 = \<lparr>batchItems = [], isProcessing = False, currentProcessingIndex = 0,
     toasts = [], clock = 0, timers = []\<rparr>"

text \<open>
  \<open>addImagesToBatch\<close>. The id of the new item (\<open>Date.now()\<close> and \<open>Math.random()\<close>) and its
  object URL are given by \<open>newId\<close> and \<open>createObjectURL\<close> at the position of the file in the
  selection; \<open>None\<close> is the \<open>null\<close> file list.
\<close>

definition newItem :: "(nat \<Rightarrow> jsstring) \<Rightarrow> (nat \<Rightarrow> jsstring) \<Rightarrow> nat \<Rightarrow> File \<Rightarrow> BatchItem" where
  "newItem newId createObjectURL index file =
     \<lparr>id' = newId index, fileName = name file, imageUrl = createObjectURL index,
      status = Pending, progress = 0, result = None, error = None\<rparr>"

fun addFiles ::
  "(nat \<Rightarrow> jsstring) \<Rightarrow> (nat \<Rightarrow> jsstring) \<Rightarrow> nat \<Rightarrow> File list \<Rightarrow> BatchItem list \<Rightarrow> BatchItem list" where
  "addFiles newId createObjectURL index [] prev = prev"
| "addFiles newId createObjectURL index (file # files) prev =
     addFiles newId createObjectURL (Suc index) files
       (if startsWith (type file) (str ''image/'')
        then prev @ [newItem newId createObjectURL index file] else prev)"

definition addImagesToBatch ::
  "(nat \<Rightarrow> jsstring) \<Rightarrow> (nat \<Rightarrow> jsstring) \<Rightarrow> File list option \<Rightarrow> batch_state \<Rightarrow> batch_state" where
  "addImagesToBatch newId createObjectURL files s =
     (case files of
        None \<Rightarrow> s
      | Some fs \<Rightarrow>
          s\<lparr>batchItems := addFiles newId createObjectURL 0 fs (batchItems s),
            toasts := toasts s @
              [\<lparr>title = str ''Images Added'',
                description = digits (length fs) @ str '' images added to batch queue'',
                destructive = False\<rparr>]\<rparr>)"

definition removeItem :: "jsstring \<Rightarrow> batch_state \<Rightarrow> batch_state" where
  "removeItem i s = s\<lparr>batchItems := filter (\<lambda>item. BatchItem.id' item \<noteq> i) (batchItems s)\<rparr>"

definition clearBatch :: "batch_state \<Rightarrow> batch_state" where
  "clearBatch s = s\<lparr>batchItems := [], currentProcessingIndex := 0\<rparr>"

definition mockBreedResults :: "BreedResult list" where
  "mockBreedResults = [
     \<lparr>breed = str ''Gir'', confidence = 87\<rparr>,
     \<lparr>breed = str ''Sahiwal'', confidence = 82\<rparr>,
     \<lparr>breed = str ''Murrah'', confidence = 91\<rparr>,
     \<lparr>breed = str ''Red Sindhi'', confidence = 76\<rparr>,
     \<lparr>breed = str ''Nili Ravi'', confidence = 89\<rparr>]"

text \<open>
  The last update of \<open>processNextItem\<close> on the item it processed. \<open>r1\<close> and \<open>r2\<close> are the
  two values of \<open>Math.random()\<close>, which lie in the interval from 0 to 1, 1 excluded;
  \<open>now\<close> is \<open>new Date()\<close>. For a first draw outside that interval the table has no entry
  at the index, and reading \<open>randomResult.breed\<close> in the successful case is a TypeError:
  the value \<open>None\<close>.
\<close>

definition randomResult :: "real \<Rightarrow> BreedResult option" where
  "randomResult r1 =
     (if 0 \<le> r1 \<and> nat \<lfloor>r1 * real (length mockBreedResults)\<rfloor> < length mockBreedResults
      then Some (mockBreedResults ! nat \<lfloor>r1 * real (length mockBreedResults)\<rfloor>) else None)"

definition completeItem :: "real \<Rightarrow> real \<Rightarrow> nat \<Rightarrow> BatchItem \<Rightarrow> BatchItem option" where
  "completeItem r1 r2 now item =
     (let success = (r2 > num_0_1) in
      if success then
        (case randomResult r1 of
           None \<Rightarrow> None
         | Some r \<Rightarrow>
             Some (item\<lparr>status := Completed,
                        result := Some \<lparr>breed = breed r, confidence = BreedResult.confidence r,
                                        timestamp = now\<rparr>,
                        error := None\<rparr>))
      else
        Some (item\<lparr>status := Error, result := None,
                   error := Some (str ''Failed to process image. Please try again.'')\<rparr>))"

text \<open>
  \<open>setTimeout\<close>: the new timer fires after every pending timer that is due no later than
  it is.
\<close>

fun setTimeout :: "task \<Rightarrow> task list \<Rightarrow> task list" where
  "setTimeout t [] = [t]"
| "setTimeout t (u # us) = (if due u \<le> due t then u # setTimeout t us else t # u # us)"

text \<open>
  \<open>processNextItem\<close>, from its entry to its first \<open>await\<close>, run with the closure of \<open>t\<close>
  on the current state.
\<close>

definition processNextItem_entry :: "task \<Rightarrow> batch_state \<Rightarrow> batch_state" where
  "processNextItem_entry t s =
     (if closureIndex t \<ge> length (closureItems t) then
        s\<lparr>isProcessing := False,
          toasts := toasts s @
            [\<lparr>title = str ''Batch Processing Complete'',
              description = str ''All images have been processed successfully!'',
              destructive = False\<rparr>]\<rparr>
      else
        s\<lparr>batchItems := map_at (closureIndex t) (\<lambda>item. item\<lparr>status := Processing\<rparr>) (batchItems s),
          timers := setTimeout (t\<lparr>due := clock s + 150, position := Resume 0\<rparr>) (timers s)\<rparr>)"

text \<open>
  \<open>processNextItem\<close> after the \<open>await\<close> of the loop at \<open>progress = p\<close>: it writes the
  progress and either waits again or, after 100, leaves the loop, writes the outcome and
  advances the index. An outcome that is a TypeError leaves the item as it is.
\<close>

definition processNextItem_resume :: "nat \<Rightarrow> real \<Rightarrow> real \<Rightarrow> task \<Rightarrow> batch_state \<Rightarrow> batch_state" where
  "processNextItem_resume p r1 r2 t s =
     (let s1 = s\<lparr>batchItems := map_at (closureIndex t) (\<lambda>item. item\<lparr>progress := p\<rparr>) (batchItems s)\<rparr>
      in if p + 10 \<le> 100 then
           s1\<lparr>timers := setTimeout (t\<lparr>due := clock s1 + 150, position := Resume (p + 10)\<rparr>) (timers s1)\<rparr>
         else
           s1\<lparr>batchItems := map_at (closureIndex t)
                  (\<lambda>item. case completeItem r1 r2 (clock s1) item of Some item' \<Rightarrow> item' | None \<Rightarrow> item)
                  (batchItems s1),
              currentProcessingIndex := currentProcessingIndex s1 + 1\<rparr>)"

text \<open>
  The body of the component, run at every render: while processing is on and the index
  is inside the queue, it sets a timer of 100 ms for the \<open>processNextItem\<close> of this render.
\<close>

definition render :: "batch_state \<Rightarrow> batch_state" where
  "render s =
     (if isProcessing s \<and> currentProcessingIndex s < length (batchItems s) then
        s\<lparr>timers := setTimeout
              \<lparr>due = clock s + 100, closureIndex = currentProcessingIndex s,
               closureItems = batchItems s, position = Entry\<rparr> (timers s)\<rparr>
      else s)"

definition startBatchProcessing :: "batch_state \<Rightarrow> batch_state" where
  "startBatchProcessing s =
     (if length (batchItems s) = 0 then
        s\<lparr>toasts := toasts s @
            [\<lparr>title = str ''No Images'', description = str ''Please add images to process'',
              destructive = True\<rparr>]\<rparr>
      else s\<lparr>isProcessing := True, currentProcessingIndex := 0\<rparr>)"

definition pauseProcessing :: "batch_state \<Rightarrow> batch_state" where
  "pauseProcessing s = s\<lparr>isProcessing := False\<rparr>"

text \<open>
  What can happen to the component: the user selects files, presses Start Processing
  (shown while nothing is processing, enabled while an item is pending), Pause (shown while
  processing), Clear All, or the remove button of an item (disabled on the items up to the
  index while processing); the component is rendered again for a reason of its
  surroundings (its parent renders, a toast closes); the first pending timer fires, the
  clock moving to its due time; or time passes with no timer due. The state updates made in
  one callback are rendered together, once, after it, and a callback that updates nothing
  causes no render.
\<close>

datatype event =
    AddImages "nat \<Rightarrow> jsstring" "nat \<Rightarrow> jsstring" "File list option"
  | Start
  | Pause
  | Clear
  | Remove nat
  | Rerender
  | Tick real real
  | Wait nat

definition tick :: "real \<Rightarrow> real \<Rightarrow> batch_state \<Rightarrow> batch_state" where
  "tick r1 r2 s =
     (case timers s of
        [] \<Rightarrow> s
      | t # ts \<Rightarrow>
          (let s1 = s\<lparr>timers := ts, clock := max (clock s) (due t)\<rparr>
           in render (case position t of
                        Entry \<Rightarrow> processNextItem_entry t s1
                      | Resume p \<Rightarrow> processNextItem_resume p r1 r2 t s1)))"

fun fire :: "event \<Rightarrow> batch_state \<Rightarrow> batch_state" where
  "fire (AddImages newId createObjectURL files) s =
     (case files of
        None \<Rightarrow> s
      | Some fs \<Rightarrow> render (addImagesToBatch newId createObjectURL files s))"
| "fire Start s =
     (if batchItems s \<noteq> [] \<and> \<not> isProcessing s \<and> filter (\<lambda>item. status item = Pending) (batchItems s) \<noteq> []
      then render (startBatchProcessing s) else s)"
| "fire Pause s =
     (if batchItems s \<noteq> [] \<and> isProcessing s then render (pauseProcessing s) else s)"
| "fire Clear s =
     (if batchItems s \<noteq> [] then render (clearBatch s) else s)"
| "fire (Remove index) s =
     (if index < length (batchItems s) \<and> \<not> (isProcessing s \<and> index \<le> currentProcessingIndex s)
      then render (removeItem (BatchItem.id' (batchItems s ! index)) s) else s)"
| "fire Rerender s = render s"
| "fire (Tick r1 r2) s = tick r1 r2 s"
| "fire (Wait d) s =
     (case timers s of
        [] \<Rightarrow> s\<lparr>clock := clock s + d\<rparr>
      | t # ts \<Rightarrow> if clock s + d \<le> due t then s\<lparr>clock := clock s + d\<rparr> else s)"

definition run :: "event list \<Rightarrow> batch_state \<Rightarrow> batch_state" where
  "run evs s = fold fire evs s"

text \<open>The toast of the completion branch of \<open>processNextItem\<close>.\<close>

definition completeToast :: toast where
  "completeToast = \<lparr>title = str ''Batch Processing Complete'',
     description = str ''All images have been processed successfully!'', destructive = False\<rparr>"

text \<open>Two files a user may select: an image and a text file.\<close>

definition cowFile :: File where
  "cowFile = \<lparr>name = str ''cow.jpg'', type = str ''image/jpeg''\<rparr>"

definition notesFile :: File where
  "notesFile = \<lparr>name = str ''notes.txt'', type = str ''text/plain''\<rparr>"


text \<open>
  What every pending call of \<open>processNextItem\<close> satisfies, and what the toasts never
  contain: the render sets a timer only while the index is inside the queue, and the
  callback reads the index and the queue of that same render.
\<close>

definition batch_inv :: "batch_state \<Rightarrow> bool" where
  "batch_inv s =
     (list_all (\<lambda>t. closureIndex t < length (closureItems t)) (timers s) \<and>
      completeToast \<notin> set (batch_state.toasts s))"

text \<open>The user selects \<open>cow.jpg\<close> and presses Start Processing.\<close>

definition oneImageStarted :: "event list" where
  "oneImageStarted = [AddImages digits digits (Some [cowFile]), Start]"

text \<open>
  For the proof that time passes: the timers are kept in the order of their due times,
  none of them due before the clock; a timer due by \<open>D\<close> weighs more than two timers set
  100 ms or more after it; and the first call of \<open>processNextItem\<close> for index 0 is due by
  100 ms, its progress write \<open>p\<close> by \<open>250 + 15 p\<close> ms.
\<close>

definition timers_ordered :: "batch_state \<Rightarrow> bool" where
  "timers_ordered s =
     (sorted (map due (timers s)) \<and> list_all (\<lambda>t. clock s \<le> due t) (timers s))"

definition weight :: "nat \<Rightarrow> task \<Rightarrow> nat" where
  "weight D t = (if due t \<le> D then 2 ^ (D - due t) else 0)"

definition potential :: "nat \<Rightarrow> batch_state \<Rightarrow> nat" where
  "potential D s = sum_list (map (weight D) (timers s))"

definition on_schedule :: "task \<Rightarrow> bool" where
  "on_schedule t =
     (closureIndex t = 0 \<and>
      (case position t of Entry \<Rightarrow> due t \<le> 100 | Resume p \<Rightarrow> p \<le> 100 \<and> due t \<le> 250 + 15 * p))"

definition first_call_alive :: "batch_state \<Rightarrow> bool" where
  "first_call_alive s =
     (1 \<le> currentProcessingIndex s \<or> list_ex on_schedule (timers s))"

text \<open>The timer that a render sets.\<close>

definition renderTimer :: "batch_state \<Rightarrow> task" where
  "renderTimer s = \<lparr>due = clock s + 100, closureIndex = currentProcessingIndex s,
     closureItems = batchItems s, position = Entry\<rparr>"


section \<open>GeolocationFeatures: the current location\<close>

record LocationData =
  latitude :: real
  longitude :: real
  accuracy :: real
  timestamp :: nat
  address :: "jsstring option"
  district :: "jsstring option"
  state :: "jsstring option"
  country :: "jsstring option"

text \<open>
  The state of the component, the toasts shown and the arguments of the calls of the
  optional \<open>onLocationUpdate\<close> prop.
\<close>

record geo_state =
  location :: "LocationData option"
  isLoading :: bool
  error :: "jsstring option"
  manualLocation :: jsstring
  selectedState :: jsstring
  toasts :: "toast list"
  updates :: "LocationData list"

definition geo_state0 :: geo_state where
  "geo_state0 = \<lparr>location = None, isLoading = False, error = None, manualLocation = [],
     selectedState = [], toasts = [], updates = []\<rparr>"

text \<open>
  How \<open>navigator.geolocation.getCurrentPosition\<close> answers: with the coordinates and the
  accuracy of a position, or with an error, whose \<open>code\<close> is a number or is missing.
\<close>

datatype geo_reply = Position real real real | Rejected "int option"

text \<open>
  The mock reverse geocoding. \<open>toFixed4\<close> is \<open>Number.prototype.toFixed(4)\<close>. It returns
  the mock address and sets \<open>selectedState\<close>.
\<close>

definition mockState :: "real \<Rightarrow> jsstring" where
  "mockState lat = (if lat > 26 then str ''Punjab'' else if lat > 23 then str ''Gujarat''
                    else str ''Maharashtra'')"

definition reverseGeocode :: "(real \<Rightarrow> jsstring) \<Rightarrow> LocationData \<Rightarrow> geo_state \<Rightarrow> LocationData \<times> geo_state" where
  "reverseGeocode toFixed4 locationData s =
     (locationData\<lparr>
        address := Some (str ''Latitude: '' @ toFixed4 (latitude locationData) @
                         str '', Longitude: '' @ toFixed4 (longitude locationData)),
        district := Some (str ''Sample District''),
        state := Some (mockState (latitude locationData)),
        country := Some (str ''India'')\<rparr>,
      s\<lparr>selectedState := mockState (latitude locationData)\<rparr>)"

definition errorMessage :: "int option \<Rightarrow> jsstring" where
  "errorMessage code =
     (if code = Some 1 then str ''Location access denied. Please enable location permissions.''
      else if code = Some 2 then str ''Location unavailable. Please check your GPS settings.''
      else if code = Some 3 then str ''Location request timed out. Please try again.''
      else str ''Failed to get location'')"

text \<open>
  \<open>getCurrentLocation\<close>, from the call to the end of its \<open>finally\<close> block.
  \<open>hasGeolocation\<close> is \<open>navigator.geolocation\<close>, \<open>hasOnLocationUpdate\<close> says whether the
  optional prop was given, \<open>showRounded\<close> renders \<open>Math.round(accuracy)\<close> in the template
  literal and \<open>now\<close> is \<open>new Date()\<close>. The callbacks and the toast return normally.
\<close>

definition getCurrentLocation ::
  "(real \<Rightarrow> jsstring) \<Rightarrow> (real \<Rightarrow> jsstring) \<Rightarrow> bool \<Rightarrow> bool \<Rightarrow> nat \<Rightarrow> geo_reply \<Rightarrow> geo_state \<Rightarrow> geo_state" where
  "getCurrentLocation toFixed4 showRounded hasGeolocation hasOnLocationUpdate now reply s =
     (if \<not> hasGeolocation then
        s\<lparr>error := Some (str ''Geolocation is not supported by this browser'')\<rparr>
      else
        (let s1 = s\<lparr>isLoading := True, error := None\<rparr>;
             s2 = (case reply of
                     Position lat lng acc \<Rightarrow>
                       (let locationData = \<lparr>latitude = lat, longitude = lng, accuracy = acc,
                              timestamp = now, address = None, district = None, state = None,
                              country = None\<rparr>;
                            (updatedLocation, s') = reverseGeocode toFixed4 locationData s1;
                            s'' = s'\<lparr>location := Some updatedLocation\<rparr>;
                            s''' = (if hasOnLocationUpdate
                                    then s''\<lparr>updates := updates s'' @ [updatedLocation]\<rparr> else s'')
                        in s'''\<lparr>toasts := toasts s''' @
                             [\<lparr>title = str ''Location Updated'',
                               description = str ''Location captured with '' @ showRounded acc @
                                             str ''m accuracy'',
                               destructive = False\<rparr>]\<rparr>)
                   | Rejected code \<Rightarrow>
                       s1\<lparr>error := Some (errorMessage code),
                          toasts := toasts s1 @
                            [\<lparr>title = str ''Location Error'', description = errorMessage code,
                              destructive = True\<rparr>]\<rparr>)
         in s2\<lparr>isLoading := False\<rparr>))"


section \<open>MultiAngleCapture: completing the capture\<close>

record Angle =
  id' :: jsstring
  name :: jsstring
  description :: jsstring
  hindi :: jsstring

definition requiredAngles :: "Angle list" where
  "requiredAngles = [
     \<lparr>id' = str ''front'', name = str ''Front View'', description = str ''Face-on view of the animal'',
      hindi = [0x0938, 0x093E, 0x092E, 0x0928, 0x0947, 0x0020, 0x0915, 0x093E, 0x0020, 0x0926,
               0x0943, 0x0936, 0x094D, 0x092F]\<rparr>,
     \<lparr>id' = str ''side'', name = str ''Side Profile'', description = str ''Complete side profile'',
      hindi = [0x092C, 0x0917, 0x0932, 0x0020, 0x0915, 0x093E, 0x0020, 0x0926, 0x0943, 0x0936,
               0x094D, 0x092F]\<rparr>,
     \<lparr>id' = str ''rear'', name = str ''Rear View'', description = str ''Back view of the animal'',
      hindi = [0x092A, 0x0940, 0x091B, 0x0947, 0x0020, 0x0915, 0x093E, 0x0020, 0x0926, 0x0943,
               0x0936, 0x094D, 0x092F]\<rparr>,
     \<lparr>id' = str ''features'', name = str ''Key Features'',
      description = str ''Close-up of distinctive features'',
      hindi = [0x092E, 0x0941, 0x0916, 0x094D, 0x092F, 0x0020, 0x0935, 0x093F, 0x0936, 0x0947,
               0x0937, 0x0924, 0x093E, 0x090F, 0x0902]\<rparr>]"

record CapturedImage =
  id' :: jsstring
  url :: jsstring
  file' :: File
  angle :: jsstring
  timestamp :: nat

text \<open>
  The state of the component that the handlers of the captured images read and write (the
  camera stream and its error message are left out), and the arguments of the calls of
  \<open>onComplete\<close>. The index is an integer: \<open>findIndex\<close> may give -1.
\<close>

record capture_state =
  currentAngleIndex :: int
  capturedImages :: "CapturedImage list"
  capturedImage :: "jsstring option"
  completed :: "CapturedImage list list"

definition capture_state0 :: capture_state where
  "capture_state0 = \<lparr>currentAngleIndex = 0, capturedImages = [], capturedImage = None,
     completed = []\<rparr>"

text \<open>\<open>requiredAngles[currentAngleIndex]\<close>, \<open>None\<close> for \<open>undefined\<close>.\<close>

definition currentAngle :: "capture_state \<Rightarrow> Angle option" where
  "currentAngle s =
     (if 0 \<le> currentAngleIndex s \<and> currentAngleIndex s < int (length requiredAngles)
      then Some (requiredAngles ! nat (currentAngleIndex s)) else None)"

fun findIndex :: "('a \<Rightarrow> bool) \<Rightarrow> 'a list \<Rightarrow> int" where
  "findIndex P [] = - 1"
| "findIndex P (x # xs) =
     (if P x then 0 else (let i = findIndex P xs in if i < 0 then - 1 else i + 1))"

text \<open>
  The part of the two handlers that add an image: the state updates after the new image
  is built. Reading \<open>currentAngle.id\<close> of an undefined angle is a TypeError, before any
  update.
\<close>

definition addCaptured :: "jsstring \<Rightarrow> File \<Rightarrow> nat \<Rightarrow> capture_state \<Rightarrow> capture_state" where
  "addCaptured u f now s =
     (case currentAngle s of
        None \<Rightarrow> s
      | Some a \<Rightarrow>
          (let newImage = \<lparr>id' = Angle.id' a, url = u, file' = f, angle = Angle.name a,
                            timestamp = now\<rparr>;
               s1 = s\<lparr>capturedImages := capturedImages s @ [newImage]\<rparr>
           in if currentAngleIndex s < int (length requiredAngles) - 1
              then s1\<lparr>currentAngleIndex := currentAngleIndex s1 + 1\<rparr> else s1))"

text \<open>
  \<open>confirmCapture\<close>; \<open>blob\<close> says that the canvas is there and \<open>toBlob\<close> delivered a blob.
\<close>

definition confirmCapture :: "bool \<Rightarrow> nat \<Rightarrow> capture_state \<Rightarrow> capture_state" where
  "confirmCapture blob now s =
     (case capturedImage s of
        None \<Rightarrow> s
      | Some u \<Rightarrow>
          if u = [] \<or> \<not> blob then s
          else (case currentAngle s of
                  None \<Rightarrow> s
                | Some a \<Rightarrow>
                    (addCaptured u
                       \<lparr>File.name = Angle.id' a @ str ''-'' @ digits now @ str ''.jpg'',
                        type = str ''image/jpeg''\<rparr> now s)\<lparr>capturedImage := None\<rparr>))"

text \<open>\<open>handleFileUpload\<close>; \<open>f\<close> is \<open>event.target.files?.[0]\<close>, \<open>u\<close> the new object URL.\<close>

definition handleFileUpload :: "File option \<Rightarrow> jsstring \<Rightarrow> nat \<Rightarrow> capture_state \<Rightarrow> capture_state" where
  "handleFileUpload f u now s =
     (case f of
        None \<Rightarrow> s
      | Some file \<Rightarrow> if startsWith (File.type file) (str ''image/'') then addCaptured u file now s else s)"

definition removeImage :: "jsstring \<Rightarrow> capture_state \<Rightarrow> capture_state" where
  "removeImage angleId s =
     s\<lparr>capturedImages := filter (\<lambda>img. CapturedImage.id' img \<noteq> angleId) (capturedImages s),
       currentAngleIndex := findIndex (\<lambda>a. Angle.id' a = angleId) requiredAngles\<rparr>"

definition goToPreviousAngle :: "capture_state \<Rightarrow> capture_state" where
  "goToPreviousAngle s =
     (if currentAngleIndex s > 0 then s\<lparr>currentAngleIndex := currentAngleIndex s - 1\<rparr> else s)"

definition goToNextAngle :: "capture_state \<Rightarrow> capture_state" where
  "goToNextAngle s =
     (if currentAngleIndex s < int (length requiredAngles) - 1
      then s\<lparr>currentAngleIndex := currentAngleIndex s + 1\<rparr> else s)"

definition handleComplete :: "capture_state \<Rightarrow> capture_state" where
  "handleComplete s =
     (if length (capturedImages s) \<ge> 2 then s\<lparr>completed := completed s @ [capturedImages s]\<rparr>
      else s)"

text \<open>The \<open>disabled\<close> attribute of the button "Complete Multi-Angle Analysis".\<close>

definition completeDisabled :: "capture_state \<Rightarrow> bool" where
  "completeDisabled s = (length (capturedImages s) < 2)"

text \<open>
  What the user can do to the captured images: take a photo, confirm or retake it (both
  shown while a photo is held), upload a file, remove the k-th captured image, step to the
  previous or next angle, and press the completion button. A disabled button does nothing.
\<close>

datatype capture_event =
    PhotoTaken jsstring
  | ConfirmCapture bool nat
  | Retake
  | Upload "File option" jsstring nat
  | RemoveAt nat
  | Previous
  | Next
  | Complete

fun capture_fire :: "capture_event \<Rightarrow> capture_state \<Rightarrow> capture_state" where
  "capture_fire (PhotoTaken u) s = s\<lparr>capturedImage := Some u\<rparr>"
| "capture_fire (ConfirmCapture blob now) s = confirmCapture blob now s"
| "capture_fire Retake s = s\<lparr>capturedImage := None\<rparr>"
| "capture_fire (Upload f u now) s = handleFileUpload f u now s"
| "capture_fire (RemoveAt k) s =
     (if k < length (capturedImages s)
      then removeImage (CapturedImage.id' (capturedImages s ! k)) s else s)"
| "capture_fire Previous s = goToPreviousAngle s"
| "capture_fire Next s = goToNextAngle s"
| "capture_fire Complete s = (if completeDisabled s then s else handleComplete s)"

definition capture_run :: "capture_event list \<Rightarrow> capture_state \<Rightarrow> capture_state" where
  "capture_run evs s = fold capture_fire evs s"


section \<open>LoadingAnalysis: the timed sequence\<close>

record AnalysisStep =
  id' :: nat
  title :: jsstring
  description :: jsstring
  hindiDescription :: jsstring
  duration :: nat

definition analysisSteps :: "AnalysisStep list" where
  "analysisSteps = [
     \<lparr>id' = 1, title = str ''Processing Image'',
      description = str ''Analyzing image quality and features'',
      hindiDescription = [0x091B, 0x0935, 0x093F, 0x0020, 0x0915, 0x0940, 0x0020, 0x0917, 0x0941,
        0x0923, 0x0935, 0x0924, 0x094D, 0x0924, 0x093E, 0x0020, 0x0915, 0x093E, 0x0020, 0x0935,
        0x093F, 0x0936, 0x094D, 0x0932, 0x0947, 0x0937, 0x0923],
      duration = 2000\<rparr>,
     \<lparr>id' = 2, title = str ''AI Model Analysis'',
      description = str ''Running breed classification model'',
      hindiDescription = [0x0928, 0x0938, 0x094D, 0x0932, 0x0020, 0x0935, 0x0930, 0x094D, 0x0917,
        0x0940, 0x0915, 0x0930, 0x0923, 0x0020, 0x092E, 0x0949, 0x0921, 0x0932, 0x0020, 0x091A,
        0x0932, 0x093E, 0x092F, 0x093E, 0x0020, 0x091C, 0x093E, 0x0020, 0x0930, 0x0939, 0x093E,
        0x0020, 0x0939, 0x0948],
      duration = 3000\<rparr>,
     \<lparr>id' = 3, title = str ''Matching Database'',
      description = str ''Comparing with breed database'',
      hindiDescription = [0x0928, 0x0938, 0x094D, 0x0932, 0x0020, 0x0921, 0x0947, 0x091F, 0x093E,
        0x092C, 0x0947, 0x0938, 0x0020, 0x0938, 0x0947, 0x0020, 0x0924, 0x0941, 0x0932, 0x0928,
        0x093E],
      duration = 2000\<rparr>]"

text \<open>
  The component is modelled with its effect. A timer holds one of three closures: the
  \<open>animateProgress\<close> of a step (with the duration of the step, its start time and the
  two ends of its progress range), the \<open>resolve\<close> of the promise that a step awaits, or
  the \<open>onComplete\<close> of the render whose effect set the timer. The first number of the
  first two is the run of the effect they belong to.
\<close>

datatype la_closure =
    ProgressTimer nat nat nat real real
  | StepTimer nat nat
  | CompleteTimer nat

record la_timer =
  la_due :: nat
  la_id :: nat
  la_closure :: la_closure

text \<open>
  The variables of one run of the effect: \<open>stepTimer\<close>, \<open>progressTimer\<close> (the identifiers
  that \<open>setTimeout\<close> returned, \<open>None\<close> for \<open>undefined\<close>), \<open>totalProgress\<close> of its
  \<open>runAnalysis\<close>, and the \<open>onComplete\<close> it closes over. Functions are told apart by a
  number: a parent that creates its callback anew at each render passes a new number.
\<close>

record la_locals =
  stepTimer :: "nat option"
  progressTimer :: "nat option"
  totalProgress :: real
  onComplete :: nat

text \<open>What is observed of the component: the calls of \<open>setCurrentStep\<close>, the end of the
  loop of \<open>runAnalysis\<close>, and the calls of \<open>onComplete\<close>, each with its time.\<close>

datatype la_observation = StepStarted nat | LoopFinished | OnCompleteCalled nat

text \<open>
  The props and the state of the component (progress as a real number), the runs of its
  effect so far (the last one is the current one), the clock in milliseconds, the pending
  timers in the order in which they fire, the next timer identifier and the observations.
\<close>

record la_state =
  la_image :: jsstring
  la_onComplete :: nat
  la_mounted :: bool
  currentStep :: nat
  progress' :: real
  la_effects :: "la_locals list"
  la_clock :: nat
  la_timers :: "la_timer list"
  la_nextId :: nat
  la_log :: "(nat \<times> la_observation) list"

text \<open>
  \<open>setTimeout\<close> gives the timer the next identifier; it fires after every pending timer
  that is due no later. \<open>clearTimeout\<close> removes the timer with the identifier, if it is
  still pending.
\<close>

fun la_insert :: "la_timer \<Rightarrow> la_timer list \<Rightarrow> la_timer list" where
  "la_insert t [] = [t]"
| "la_insert t (u # us) = (if la_due u \<le> la_due t then u # la_insert t us else t # u # us)"

definition la_setTimeout :: "la_closure \<Rightarrow> nat \<Rightarrow> la_state \<Rightarrow> la_state" where
  "la_setTimeout f delay s =
     s\<lparr>la_timers := la_insert \<lparr>la_due = la_clock s + delay, la_id = la_nextId s, la_closure = f\<rparr>
                       (la_timers s),
       la_nextId := la_nextId s + 1\<rparr>"

definition la_clearTimeout :: "nat option \<Rightarrow> la_state \<Rightarrow> la_state" where
  "la_clearTimeout i s =
     (case i of
        None \<Rightarrow> s
      | Some k \<Rightarrow> s\<lparr>la_timers := filter (\<lambda>t. la_id t \<noteq> k) (la_timers s)\<rparr>)"

text \<open>The state setters: a component that is no longer mounted ignores them.\<close>

definition setCurrentStep :: "nat \<Rightarrow> la_state \<Rightarrow> la_state" where
  "setCurrentStep i s =
     (let s1 = s\<lparr>la_log := la_log s @ [(la_clock s, StepStarted i)]\<rparr>
      in if la_mounted s1 then s1\<lparr>currentStep := i\<rparr> else s1)"

definition setProgress :: "real \<Rightarrow> la_state \<Rightarrow> la_state" where
  "setProgress p s = (if la_mounted s then s\<lparr>progress' := p\<rparr> else s)"

text \<open>
  \<open>animateProgress\<close> of run \<open>e\<close>, for a step of the given duration that started at
  \<open>startTime\<close> with the progress range from \<open>stepStart\<close> to \<open>stepEnd\<close>.
\<close>

definition animateProgress :: "nat \<Rightarrow> nat \<Rightarrow> nat \<Rightarrow> real \<Rightarrow> real \<Rightarrow> la_state \<Rightarrow> la_state" where
  "animateProgress e stepDuration startTime stepStart stepEnd s =
     (let elapsed = la_clock s - startTime;
          stepProgress = min (real elapsed / real stepDuration) 1;
          currentProgress = stepStart + (stepEnd - stepStart) * stepProgress;
          s1 = setProgress currentProgress s
      in if stepProgress < 1 then
           (la_setTimeout (ProgressTimer e stepDuration startTime stepStart stepEnd) 50 s1)
             \<lparr>la_effects := (la_effects s1)[e := (la_effects s1 ! e)\<lparr>progressTimer := Some (la_nextId s1)\<rparr>]\<rparr>
         else
           s1\<lparr>la_effects := (la_effects s1)[e := (la_effects s1 ! e)\<lparr>totalProgress := stepEnd\<rparr>]\<rparr>)"

text \<open>
  \<open>runAnalysis\<close> of run \<open>e\<close>, from the head of the \<open>for\<close> loop at index \<open>i\<close> to the next
  \<open>await\<close>, or, after the loop, to its end, where it hands \<open>onComplete\<close> to a timer of
  500 ms whose identifier it does not keep.
\<close>

definition runAnalysis :: "nat \<Rightarrow> nat \<Rightarrow> la_state \<Rightarrow> la_state" where
  "runAnalysis e i s =
     (if i < length analysisSteps then
        (let s1 = setCurrentStep i s;
             step = analysisSteps ! i;
             stepStart = totalProgress (la_effects s1 ! e);
             stepEnd = (real (i + 1) / real (length analysisSteps)) * 100;
             s2 = animateProgress e (duration step) (la_clock s1) stepStart stepEnd s1;
             s3 = la_setTimeout (StepTimer e i) (duration step) s2
         in s3\<lparr>la_effects := (la_effects s3)[e := (la_effects s3 ! e)\<lparr>stepTimer := Some (la_nextId s2)\<rparr>]\<rparr>)
      else
        (let s1 = setProgress 100 s;
             s2 = s1\<lparr>la_log := la_log s1 @ [(la_clock s1, LoopFinished)]\<rparr>
         in la_setTimeout (CompleteTimer (onComplete (la_effects s2 ! e))) 500 s2))"

text \<open>
  The effect: a new run, with \<open>totalProgress = 0\<close> and the \<open>onComplete\<close> of the current
  render, starts \<open>runAnalysis\<close>. Its cleanup clears the step timer and the progress timer
  that the run holds at that moment.
\<close>

definition la_effect :: "la_state \<Rightarrow> la_state" where
  "la_effect s =
     runAnalysis (length (la_effects s)) 0
       (s\<lparr>la_effects := la_effects s @
            [\<lparr>stepTimer = None, progressTimer = None, totalProgress = 0,
              onComplete = la_onComplete s\<rparr>]\<rparr>)"

definition la_cleanup :: "la_state \<Rightarrow> la_state" where
  "la_cleanup s =
     (case rev (la_effects s) of
        [] \<Rightarrow> s
      | v # _ \<Rightarrow> la_clearTimeout (progressTimer v) (la_clearTimeout (stepTimer v) s))"

text \<open>The component mounted with the props \<open>image\<close> and \<open>onComplete\<close>, at time 0.\<close>

definition la_mount :: "jsstring \<Rightarrow> nat \<Rightarrow> la_state" where
  "la_mount image' cb =
     la_effect \<lparr>la_image = image', la_onComplete = cb, la_mounted = True, currentStep = 0,
                progress' = 0, la_effects = [], la_clock = 0, la_timers = [], la_nextId = 0,
                la_log = []\<rparr>"

text \<open>
  What can happen to the mounted component: the first pending timer fires, the clock
  moving to its due time unless it is already later; time passes with no timer run (so
  that a timer can fire later than it is due, never earlier); the parent renders and passes an
  \<open>onComplete\<close> (the effect depends on it: when it is another function than before, the
  cleanup of the current run is called and the effect runs again, here in one step with
  the render); the component is unmounted, which calls the cleanup.
\<close>

datatype la_event = TimerFires | TimePasses nat | ParentRenders nat | Unmounts

fun la_fire :: "la_event \<Rightarrow> la_state \<Rightarrow> la_state" where
  "la_fire TimerFires s =
     (case la_timers s of
        [] \<Rightarrow> s
      | t # ts \<Rightarrow>
          (let s1 = s\<lparr>la_timers := ts, la_clock := max (la_clock s) (la_due t)\<rparr>
           in case la_closure t of
                ProgressTimer e stepDuration startTime stepStart stepEnd \<Rightarrow>
                  animateProgress e stepDuration startTime stepStart stepEnd s1
              | StepTimer e i \<Rightarrow> runAnalysis e (i + 1) s1
              | CompleteTimer cb \<Rightarrow>
                  s1\<lparr>la_log := la_log s1 @ [(la_clock s1, OnCompleteCalled cb)]\<rparr>))"
| "la_fire (TimePasses d) s = s\<lparr>la_clock := la_clock s + d\<rparr>"
| "la_fire (ParentRenders cb) s =
     (if la_mounted s \<and> cb \<noteq> la_onComplete s
      then la_effect (la_cleanup (s\<lparr>la_onComplete := cb\<rparr>)) else s)"
| "la_fire Unmounts s =
     (if la_mounted s then (la_cleanup s)\<lparr>la_mounted := False\<rparr> else s)"

definition la_run :: "la_event list \<Rightarrow> la_state \<Rightarrow> la_state" where
  "la_run evs s = fold la_fire evs s"

text \<open>The calls of \<open>onComplete\<close> observed: the time and the function of each.\<close>

fun la_called :: "(nat \<times> la_observation) list \<Rightarrow> (nat \<times> nat) list" where
  "la_called [] = []"
| "la_called ((t, OnCompleteCalled cb) # obs) = (t, cb) # la_called obs"
| "la_called (_ # obs) = la_called obs"

text \<open>
  The events that leave the component alone: the timers and the clock, and renders of
  the parent that pass the same \<open>onComplete\<close>.
\<close>

fun la_quiet :: "nat \<Rightarrow> la_event \<Rightarrow> bool" where
  "la_quiet cb TimerFires = True"
| "la_quiet cb (TimePasses d) = True"
| "la_quiet cb (ParentRenders c) = (c = cb)"
| "la_quiet cb Unmounts = False"

text \<open>
  For the proofs. While the component stays mounted with the same \<open>onComplete\<close>, the
  pending timers other than progress timers are determined by the number of observations
  that the current run of the effect has made: the step timer of the current step, then
  the timer of \<open>onComplete\<close>, then none.
\<close>

fun la_isProgress :: "la_closure \<Rightarrow> bool" where
  "la_isProgress (ProgressTimer e d st a b) = True"
| "la_isProgress _ = False"

definition la_main :: "la_state \<Rightarrow> la_timer list" where
  "la_main s = filter (\<lambda>t. \<not> la_isProgress (la_closure t)) (la_timers s)"

definition la_sequence :: "nat \<Rightarrow> la_observation list" where
  "la_sequence cb = [StepStarted 0, StepStarted 1, StepStarted 2, LoopFinished, OnCompleteCalled cb]"

definition la_schedule :: "nat list" where
  "la_schedule = [0, 2000, 5000, 7000, 7500]"

definition la_expected :: "nat \<Rightarrow> nat \<Rightarrow> nat \<Rightarrow> la_closure list" where
  "la_expected cb e n =
     (if n = 0 then [] else if n \<le> 3 then [StepTimer e (n - 1)]
      else if n = 4 then [CompleteTimer cb] else [])"

text \<open>
  A progress timer sets no further timer once its step is over, at the start time plus
  the duration. A pending progress timer is either the one that \<open>progressTimer\<close> of the
  current run holds or one whose step is over; a pending step timer is the one that
  \<open>stepTimer\<close> of the current run holds.
\<close>

fun la_ok :: "la_closure \<Rightarrow> bool" where
  "la_ok (ProgressTimer e d st a b) = (0 < d)"
| "la_ok (StepTimer e i) = (i < 3)"
| "la_ok (CompleteTimer c) = True"

fun la_expiry :: "la_closure \<Rightarrow> nat" where
  "la_expiry (ProgressTimer e d st a b) = st + d"
| "la_expiry _ = 0"

definition la_expired :: "nat \<Rightarrow> la_timer \<Rightarrow> bool" where
  "la_expired c t \<longleftrightarrow>
     la_isProgress (la_closure t) \<and> la_ok (la_closure t) \<and> la_expiry (la_closure t) \<le> c"

definition la_sound :: "nat \<Rightarrow> nat option \<Rightarrow> nat option \<Rightarrow> nat \<Rightarrow> la_timer \<Rightarrow> bool" where
  "la_sound e pv sv c t \<longleftrightarrow>
     la_ok (la_closure t) \<and>
     (case la_closure t of
        ProgressTimer e' d st a b \<Rightarrow> (e' = e \<and> pv = Some (la_id t)) \<or> st + d \<le> c
      | StepTimer e' i \<Rightarrow> e' = e \<and> sv = Some (la_id t)
      | CompleteTimer cb \<Rightarrow> True)"

text \<open>
  The invariant of run \<open>e\<close> of the effect, started at time \<open>t0\<close> with the log \<open>base\<close>,
  for the \<open>onComplete\<close> number \<open>cb\<close>: \<open>obs\<close> is what the run has observed so far.
\<close>

definition la_inv ::
  "nat \<Rightarrow> nat \<Rightarrow> (nat \<times> la_observation) list \<Rightarrow> nat \<Rightarrow> (nat \<times> la_observation) list \<Rightarrow>
   la_state \<Rightarrow> bool" where
  "la_inv cb e base t0 obs s \<longleftrightarrow>
     la_mounted s \<and> la_onComplete s = cb \<and> length (la_effects s) = e + 1 \<and>
     onComplete (la_effects s ! e) = cb \<and>
     la_log s = base @ obs \<and>
     list_all (\<lambda>ob. fst ob \<le> la_clock s) obs \<and>
     1 \<le> length obs \<and> length obs \<le> 5 \<and>
     map snd obs = take (length obs) (la_sequence cb) \<and>
     list_all2 (\<le>) (map ((+) t0) (take (length obs) la_schedule)) (map fst obs) \<and>
     map la_closure (la_main s) = la_expected cb e (length obs) \<and>
     list_all (\<lambda>u. t0 + la_schedule ! length obs \<le> la_due u) (la_main s) \<and>
     list_all (la_sound e (progressTimer (la_effects s ! e)) (stepTimer (la_effects s ! e))
                 (la_clock s)) (la_timers s) \<and>
     list_all (\<lambda>t. list_all (\<lambda>u. la_expiry (la_closure t) \<le> la_due u) (la_main s))
       (la_timers s) \<and>
     distinct (map la_id (la_timers s)) \<and>
     list_all (\<lambda>t. la_id t < la_nextId s) (la_timers s)"

text \<open>What the cleanup leaves behind while a step is running: progress timers of steps
  that are over.\<close>

definition la_leftover :: "la_state \<Rightarrow> bool" where
  "la_leftover s \<longleftrightarrow>
     list_all (la_expired (la_clock s)) (la_timers s) \<and>
     distinct (map la_id (la_timers s)) \<and>
     list_all (\<lambda>t. la_id t < la_nextId s) (la_timers s)"

text \<open>
  A bound on the number of timers that still fire: a progress timer sets itself again
  only before the end of its step, a step timer starts the next step or the last timer.
\<close>

definition la_weight :: "la_timer \<Rightarrow> nat" where
  "la_weight t =
     (case la_closure t of
        ProgressTimer e d st a b \<Rightarrow> 1 + (st + d - la_due t)
      | StepTimer e i \<Rightarrow> 2 + 3000 * (2 - i)
      | CompleteTimer c \<Rightarrow> 1)"

definition la_potential :: "la_state \<Rightarrow> nat" where
  "la_potential s = sum_list (map la_weight (la_timers s))"


section \<open>BreedAI: the screen controller\<close>

record BreedPrediction =
  name :: jsstring
  hindiName :: jsstring
  confidence :: real
  characteristics :: "jsstring list"
  region :: jsstring

definition mockPredictions :: "BreedPrediction list" where
  "mockPredictions = [
     \<lparr>name = str ''Gir'', hindiName = [0x0917, 0x0940, 0x0930], confidence = 87,
      characteristics = [str ''Drought resistant'', str ''High milk yield'',
                         str ''Distinctive forehead'', str ''White patches''],
      region = str ''Gujarat, Rajasthan''\<rparr>,
     \<lparr>name = str ''Sahiwal'',
      hindiName = [0x0938, 0x093E, 0x0939, 0x0940, 0x0935, 0x093E, 0x0932], confidence = 72,
      characteristics = [str ''Heat tolerant'', str ''Good milk producer'', str ''Docile nature''],
      region = str ''Punjab, Haryana''\<rparr>,
     \<lparr>name = str ''Red Sindhi'',
      hindiName = [0x0932, 0x093E, 0x0932, 0x0020, 0x0938, 0x093F, 0x0902, 0x0927, 0x0940],
      confidence = 64,
      characteristics = [str ''Heat resistant'', str ''Good grazer'', str ''Hardy breed''],
      region = str ''Maharashtra, Karnataka''\<rparr>]"

text \<open>
  The values of the type \<open>AppState\<close>. At run time the mode is a string, so it is modelled
  as one, and that it is always one of these is proved, not assumed.
\<close>

definition AppState :: "jsstring list" where
  "AppState = [str ''home'', str ''capture'', str ''multi-angle'', str ''batch'', str ''analytics'',
     str ''location'', str ''voice'', str ''analyzing'', str ''results'', str ''database'',
     str ''confirmed'']"

record app_state =
  currentState :: jsstring
  capturedImage :: "jsstring option"
  confirmedBreed :: "BreedPrediction option"
  toasts :: "toast list"

definition app_state0 :: app_state where
  "app_state0 = \<lparr>currentState = str ''home'', capturedImage = None, confirmedBreed = None,
     toasts = []\<rparr>"

definition handleImageCapture :: "File \<Rightarrow> jsstring \<Rightarrow> app_state \<Rightarrow> app_state" where
  "handleImageCapture f imageUrl' s =
     s\<lparr>capturedImage := Some imageUrl', currentState := str ''analyzing''\<rparr>"

definition handleAnalysisComplete :: "app_state \<Rightarrow> app_state" where
  "handleAnalysisComplete s = s\<lparr>currentState := str ''results''\<rparr>"

text \<open>The toast of \<open>handleBreedConfirm\<close> also has a duration of 4000 ms, left out here.\<close>

definition handleBreedConfirm :: "BreedPrediction \<Rightarrow> app_state \<Rightarrow> app_state" where
  "handleBreedConfirm b s =
     s\<lparr>confirmedBreed := Some b, currentState := str ''confirmed'',
       toasts := toasts s @
         [\<lparr>toast.title = str ''Breed Confirmed!'',
           toast.description = name b @ str '' ('' @ hindiName b @
             str '') has been confirmed and will be sent to BPA.'',
           destructive = False\<rparr>]\<rparr>"

definition handleBreedCorrect :: "app_state \<Rightarrow> app_state" where
  "handleBreedCorrect s =
     s\<lparr>toasts := toasts s @
         [\<lparr>toast.title = str ''Feedback Recorded'',
           toast.description = str ''Your correction has been noted. This helps improve our AI model.'',
           destructive = False\<rparr>],
       currentState := str ''capture''\<rparr>"

definition handleStartOver :: "app_state \<Rightarrow> app_state" where
  "handleStartOver s = s\<lparr>capturedImage := None, confirmedBreed := None, currentState := str ''home''\<rparr>"

text \<open>
  The \<open>onComplete\<close> given to \<open>MultiAngleCapture\<close>: \<open>images[0]?.url || null\<close> is the URL of
  the first image unless there is none or it is the empty string.
\<close>

definition multiAngleComplete :: "CapturedImage list \<Rightarrow> app_state \<Rightarrow> app_state" where
  "multiAngleComplete images s =
     s\<lparr>capturedImage := (case images of
                             [] \<Rightarrow> None
                           | img # _ \<Rightarrow> if url img = [] then None else Some (url img)),
       currentState := str ''analyzing''\<rparr>"

text \<open>What \<open>renderContent\<close> returns: the component shown, with the props that matter.\<close>

datatype view =
    HomeView
  | MultiAngleCaptureView
  | BatchProcessingView
  | AnalyticsDashboardView
  | GeolocationFeaturesView
  | VoiceCommandsView
  | CameraCaptureView
  | LoadingAnalysisView jsstring
  | BreedResultsView jsstring "BreedPrediction list"
  | BreedDatabaseView
  | ConfirmedView "BreedPrediction option"
  | NullView

definition renderContent :: "app_state \<Rightarrow> view" where
  "renderContent s =
     (if currentState s = str ''home'' then HomeView
      else if currentState s = str ''multi-angle'' then MultiAngleCaptureView
      else if currentState s = str ''batch'' then BatchProcessingView
      else if currentState s = str ''analytics'' then AnalyticsDashboardView
      else if currentState s = str ''location'' then GeolocationFeaturesView
      else if currentState s = str ''voice'' then VoiceCommandsView
      else if currentState s = str ''capture'' then CameraCaptureView
      else if currentState s = str ''analyzing'' then
        (case capturedImage s of
           None \<Rightarrow> NullView
         | Some image' \<Rightarrow> if image' = [] then NullView else LoadingAnalysisView image')
      else if currentState s = str ''results'' then
        (case capturedImage s of
           None \<Rightarrow> NullView
         | Some image' \<Rightarrow> if image' = [] then NullView else BreedResultsView image' mockPredictions)
      else if currentState s = str ''database'' then BreedDatabaseView
      else if currentState s = str ''confirmed'' then ConfirmedView (confirmedBreed s)
      else NullView)"

text \<open>
  The callbacks of the controller: the seven buttons of the home screen, the header's
  "Back to Home", and the props it passes to the views. A callback can arrive after its
  view is gone (the last timer of \<open>LoadingAnalysis\<close> is not cleared), so none is tied to a
  mode.
\<close>

datatype app_event =
    QuickAnalysis
  | MultiAngleAnalysis
  | BatchProcessingButton
  | ViewAnalytics
  | LocationServices
  | VoiceCommandsButton
  | BreedDatabaseButton
  | BackToHome
  | MultiAngleComplete "CapturedImage list"
  | MultiAngleBack
  | BatchBack
  | ImageCapture File jsstring
  | AnalysisComplete
  | BreedConfirm BreedPrediction
  | BreedCorrect
  | ResultsBack
  | StartOver
  | ViewBreedDatabase

fun app_fire :: "app_event \<Rightarrow> app_state \<Rightarrow> app_state" where
  "app_fire QuickAnalysis s = s\<lparr>currentState := str ''capture''\<rparr>"
| "app_fire MultiAngleAnalysis s = s\<lparr>currentState := str ''multi-angle''\<rparr>"
| "app_fire BatchProcessingButton s = s\<lparr>currentState := str ''batch''\<rparr>"
| "app_fire ViewAnalytics s = s\<lparr>currentState := str ''analytics''\<rparr>"
| "app_fire LocationServices s = s\<lparr>currentState := str ''location''\<rparr>"
| "app_fire VoiceCommandsButton s = s\<lparr>currentState := str ''voice''\<rparr>"
| "app_fire BreedDatabaseButton s = s\<lparr>currentState := str ''database''\<rparr>"
| "app_fire BackToHome s = s\<lparr>currentState := str ''home''\<rparr>"
| "app_fire (MultiAngleComplete images) s = multiAngleComplete images s"
| "app_fire MultiAngleBack s = s\<lparr>currentState := str ''home''\<rparr>"
| "app_fire BatchBack s = s\<lparr>currentState := str ''home''\<rparr>"
| "app_fire (ImageCapture f imageUrl') s = handleImageCapture f imageUrl' s"
| "app_fire AnalysisComplete s = handleAnalysisComplete s"
| "app_fire (BreedConfirm b) s = handleBreedConfirm b s"
| "app_fire BreedCorrect s = handleBreedCorrect s"
| "app_fire ResultsBack s = s\<lparr>currentState := str ''capture''\<rparr>"
| "app_fire StartOver s = handleStartOver s"
| "app_fire ViewBreedDatabase s = s\<lparr>currentState := str ''database''\<rparr>"

definition app_run :: "app_event list \<Rightarrow> app_state \<Rightarrow> app_state" where
  "app_run evs s = fold app_fire evs s"

text \<open>
  The controller passes \<open>handleAnalysisComplete\<close> as the \<open>onComplete\<close> of
  \<open>LoadingAnalysis\<close>: a new function at each of its renders, always with the same body. So
  each call of \<open>onComplete\<close> that the component makes, of whichever of these functions, is
  a call of \<open>handleAnalysisComplete\<close>.
\<close>

definition deliver :: "(nat \<times> nat) list \<Rightarrow> app_state \<Rightarrow> app_state" where
  "deliver calls s = fold (\<lambda>call. handleAnalysisComplete) calls s"

text \<open>The predictions on the screen, if the results view is shown.\<close>

fun shownPredictions :: "view \<Rightarrow> BreedPrediction list option" where
  "shownPredictions (BreedResultsView image' predictions) = Some predictions"
| "shownPredictions _ = None"


section \<open>Facts about strings\<close>

lemma startsWith_iff: "startsWith s p \<longleftrightarrow> (\<exists>ss. s = p @ ss)"
proof
  assume "startsWith s p"
  then have "s = p @ drop (length p) s"
    by (metis append_take_drop_id startsWith_def)
  then show "\<exists>ss. s = p @ ss" ..
next
  assume "\<exists>ss. s = p @ ss"
  then show "startsWith s p"
    by (auto simp: startsWith_def)
qed

lemma js_includes_iff: "js_includes s t \<longleftrightarrow> contains_substring s t"
proof (induction s)
  case Nil
  show ?case by (simp add: contains_substring_def)
next
  case (Cons c s)
  show ?case
  proof
    assume "js_includes (c # s) t"
    then consider "startsWith (c # s) t" | "js_includes s t" by auto
    then show "contains_substring (c # s) t"
    proof cases
      case 1
      then obtain ss where "c # s = t @ ss" using startsWith_iff by blast
      then have "c # s = [] @ t @ ss" by simp
      then show ?thesis unfolding contains_substring_def by blast
    next
      case 2
      then obtain ps ss where "s = ps @ t @ ss"
        using Cons.IH contains_substring_def by auto
      then have "c # s = (c # ps) @ t @ ss" by simp
      then show ?thesis unfolding contains_substring_def by blast
    qed
  next
    assume "contains_substring (c # s) t"
    then obtain ps ss where eq: "c # s = ps @ t @ ss"
      unfolding contains_substring_def by blast
    show "js_includes (c # s) t"
    proof (cases ps)
      case Nil
      with eq have "startsWith (c # s) t" using startsWith_iff by auto
      then show ?thesis by simp
    next
      case (Cons p ps')
      with eq have "s = ps' @ t @ ss" by simp
      then have "contains_substring s t" unfolding contains_substring_def by blast
      then show ?thesis using Cons.IH by simp
    qed
  qed
qed

text \<open>
  The doubles of the two literals lie within \<open>10\<^sup>-\<^sup>1\<^sup>6\<close> of the decimal fractions, 0.7 below
  and 0.1 above.
\<close>

lemma num_literals_close:
  "num_0_7 < 7 / 10 \<and> 7 / 10 - num_0_7 < 1 / 10 ^ 16 \<and>
   1 / 10 < num_0_1 \<and> num_0_1 - 1 / 10 < 1 / 10 ^ 16"
  by (simp add: num_0_7_def num_0_1_def)

lemma js_includes_empty: "js_includes s []"
proof -
  have "s = [] @ [] @ s" by simp
  then have "contains_substring s []" unfolding contains_substring_def by blast
  then show ?thesis by (simp add: js_includes_iff)
qed


section \<open>Theorems\<close>

subsection \<open>BreedResults\<close>

text \<open>
  C8. \<open>getConfidenceLevel\<close> is defined on every confidence and sorts it into one of three
  levels that exclude each other: the level is "high", with the label "High Confidence",
  exactly when the confidence is at least 80, "medium" exactly when it is at least 60 and
  below 80, and "low" exactly when it is below 60. On whole percentages the medium band is
  60 to 79, as the legend of the results screen says (High 80%+, Medium 60-79%, Low <60%).
\<close>

theorem C8_getConfidenceLevel_partition:
  "(level (getConfidenceLevel c) = str ''high'' \<longleftrightarrow> c \<ge> 80) \<and>
   (label (getConfidenceLevel c) = str ''High Confidence'' \<longleftrightarrow> c \<ge> 80) \<and>
   (level (getConfidenceLevel c) = str ''medium'' \<longleftrightarrow> 60 \<le> c \<and> c < 80) \<and>
   (level (getConfidenceLevel c) = str ''low'' \<longleftrightarrow> c < 60) \<and>
   level (getConfidenceLevel c) \<in> {str ''high'', str ''medium'', str ''low''} \<and>
   distinct [str ''high'', str ''medium'', str ''low''] \<and>
   (level (getConfidenceLevel (of_int n)) = str ''medium'' \<longleftrightarrow> 60 \<le> n \<and> n \<le> 79)"
  by (auto simp: getConfidenceLevel_def str_def)

subsection \<open>BreedDatabase\<close>

text \<open>
  C7. For every search term and type filter, a breed is in \<open>filteredBreeds\<close> exactly when it
  is one of the six entries of \<open>breedDatabase\<close>, its lowercased name contains the lowercased
  search term or its Hindi name contains the search term or its lowercased region contains
  the lowercased search term, and the type filter is "all" or equals the breed's type. The
  result keeps the order of the database (whose entries are pairwise different), and the
  empty search term with the filter "all" gives all six breeds.
\<close>

theorem C7_filteredBreeds_characterised:
  "(b \<in> set (filteredBreeds toLowerCase searchTerm selectedType) \<longleftrightarrow>
      b \<in> set breedDatabase \<and>
      (contains_substring (toLowerCase (Breed.name b)) (toLowerCase searchTerm) \<or>
       contains_substring (Breed.hindiName b) searchTerm \<or>
       contains_substring (toLowerCase (Breed.region b)) (toLowerCase searchTerm)) \<and>
      (selectedType = str ''all'' \<or> Breed.type b = selectedType)) \<and>
   subseq (filteredBreeds toLowerCase searchTerm selectedType) breedDatabase \<and>
   distinct breedDatabase \<and>
   length breedDatabase = 6 \<and>
   filteredBreeds toLowerCase [] (str ''all'') = breedDatabase"
proof (intro conjI)
  show "b \<in> set (filteredBreeds toLowerCase searchTerm selectedType) \<longleftrightarrow>
      b \<in> set breedDatabase \<and>
      (contains_substring (toLowerCase (Breed.name b)) (toLowerCase searchTerm) \<or>
       contains_substring (Breed.hindiName b) searchTerm \<or>
       contains_substring (toLowerCase (Breed.region b)) (toLowerCase searchTerm)) \<and>
      (selectedType = str ''all'' \<or> Breed.type b = selectedType)"
    by (simp add: filteredBreeds_def matchesSearch_def matchesType_def js_includes_iff)
  show "subseq (filteredBreeds toLowerCase searchTerm selectedType) breedDatabase"
    by (simp add: filteredBreeds_def)
  show "distinct breedDatabase"
    by (simp add: breedDatabase_def str_def)
  show "length breedDatabase = 6"
    by (simp add: breedDatabase_def)
  have "matchesSearch toLowerCase [] b" for b
    by (simp add: matchesSearch_def js_includes_empty)
  then show "filteredBreeds toLowerCase [] (str ''all'') = breedDatabase"
    by (simp add: filteredBreeds_def matchesType_def)
qed

text \<open>
  A search for "PUNJAB" among the buffaloes, with the letters A to Z lowercased, finds
  Murrah and Nili Ravi, in the order of the database.
\<close>

lemma filteredBreeds_punjab_buffalo:
  "map Breed.name (filteredBreeds lower_ascii (str ''PUNJAB'') (str ''buffalo'')) =
     [str ''Murrah'', str ''Nili Ravi'']"
  by (simp add: filteredBreeds_def matchesSearch_def matchesType_def breedDatabase_def
      lower_ascii_def str_def startsWith_def)

subsection \<open>VoiceCommands\<close>

lemma speak_commands: "commands (speak h txt lng s) = commands s"
  by (simp add: speak_def)

lemma matchesCommand_has_keyword:
  "matchesCommand toLowerCase (trim (toLowerCase transcript)) cmd =
     has_keyword toLowerCase transcript cmd"
  by (simp add: matchesCommand_def has_keyword_def js_includes_iff)

lemma processCommand_commands:
  "commands (processCommand toLowerCase hasOnCommand hasSpeechSynthesis transcript conf s) =
     (case find (has_keyword toLowerCase transcript) voiceCommands of
        Some cmd \<Rightarrow> if conf > num_0_7 \<and> hasOnCommand then commands s @ [action cmd] else commands s
      | None \<Rightarrow> commands s)"
proof -
  have eq: "matchesCommand toLowerCase (trim (toLowerCase transcript)) =
              has_keyword toLowerCase transcript"
    by (rule ext) (rule matchesCommand_has_keyword)
  show ?thesis
    by (simp add: processCommand_def Let_def eq speak_commands split: option.split)
qed

text \<open>
  C3. Let the \<open>onCommand\<close> callback be given. For every transcript and confidence,
  \<open>processCommand\<close> calls \<open>onCommand\<close> exactly when the lowercased, trimmed transcript
  contains the lowercased English keyword or the Hindi keyword of some entry of the
  seven-command list and the confidence is greater than 0.7. When it calls, it calls once,
  with the action of the first matching entry in list order; otherwise it dispatches
  nothing.
\<close>

theorem C3_processCommand_dispatch:
  assumes "hasOnCommand"
  shows "length voiceCommands = 7 \<and>
    ((\<exists>cmd \<in> set voiceCommands. has_keyword toLowerCase transcript cmd) \<and> conf > num_0_7 \<longrightarrow>
       (\<exists>i < length voiceCommands.
          has_keyword toLowerCase transcript (voiceCommands ! i) \<and>
          (\<forall>j < i. \<not> has_keyword toLowerCase transcript (voiceCommands ! j)) \<and>
          commands (processCommand toLowerCase hasOnCommand hasSpeechSynthesis transcript conf s) =
            commands s @ [action (voiceCommands ! i)])) \<and>
    (\<not> ((\<exists>cmd \<in> set voiceCommands. has_keyword toLowerCase transcript cmd) \<and> conf > num_0_7) \<longrightarrow>
       commands (processCommand toLowerCase hasOnCommand hasSpeechSynthesis transcript conf s) =
         commands s)"
proof (intro conjI impI)
  show "length voiceCommands = 7"
    by (simp add: voiceCommands_def)
next
  assume hit: "(\<exists>cmd \<in> set voiceCommands. has_keyword toLowerCase transcript cmd) \<and> conf > num_0_7"
  then obtain cmd where found: "find (has_keyword toLowerCase transcript) voiceCommands = Some cmd"
    by (cases "find (has_keyword toLowerCase transcript) voiceCommands")
       (auto simp: find_None_iff)
  then obtain i where i: "i < length voiceCommands"
      "has_keyword toLowerCase transcript (voiceCommands ! i)" "cmd = voiceCommands ! i"
      "\<forall>j < i. \<not> has_keyword toLowerCase transcript (voiceCommands ! j)"
    unfolding find_Some_iff by blast
  have "commands (processCommand toLowerCase hasOnCommand hasSpeechSynthesis transcript conf s) =
          commands s @ [action (voiceCommands ! i)]"
    using found hit assms i(3) by (simp add: processCommand_commands)
  with i show "\<exists>i < length voiceCommands.
          has_keyword toLowerCase transcript (voiceCommands ! i) \<and>
          (\<forall>j < i. \<not> has_keyword toLowerCase transcript (voiceCommands ! j)) \<and>
          commands (processCommand toLowerCase hasOnCommand hasSpeechSynthesis transcript conf s) =
            commands s @ [action (voiceCommands ! i)]"
    by blast
next
  assume miss: "\<not> ((\<exists>cmd \<in> set voiceCommands. has_keyword toLowerCase transcript cmd) \<and> conf > num_0_7)"
  show "commands (processCommand toLowerCase hasOnCommand hasSpeechSynthesis transcript conf s) =
         commands s"
  proof (cases "find (has_keyword toLowerCase transcript) voiceCommands")
    case None
    then show ?thesis by (simp add: processCommand_commands)
  next
    case (Some cmd)
    then have "\<exists>cmd \<in> set voiceCommands. has_keyword toLowerCase transcript cmd"
      unfolding find_Some_iff by auto
    with miss have "\<not> conf > num_0_7" by blast
    with Some show ?thesis by (simp add: processCommand_commands)
  qed
qed

text \<open>
  The transcript "  Please Retake Photo " at confidence 0.9: the first entry, "take photo",
  already matches, so the action dispatched is \<open>takePhoto\<close>.
\<close>

theorem C3_processCommand_dispatch_witness:
  "(\<exists>cmd \<in> set voiceCommands. has_keyword lower_ascii (str ''  Please Retake Photo '') cmd) \<and>
   (9 / 10 :: real) > num_0_7 \<and>
   commands (processCommand lower_ascii True True (str ''  Please Retake Photo '') (9 / 10) voice_state0) =
     [str ''takePhoto'']"
proof -
  let ?t = "str ''  Please Retake Photo ''"
  have first: "has_keyword lower_ascii ?t (voiceCommands ! 0)"
    unfolding has_keyword_def js_includes_iff [symmetric]
    by (simp add: voiceCommands_def lower_ascii_def trim_def isWhiteSpace_def str_def startsWith_def)
  have mem: "voiceCommands ! 0 \<in> set voiceCommands"
    by (simp add: voiceCommands_def)
  have hit: "\<exists>cmd \<in> set voiceCommands. has_keyword lower_ascii ?t cmd"
    using first mem by blast
  have conf: "(9 / 10 :: real) > num_0_7"
    by (simp add: num_0_7_def)
  from C3_processCommand_dispatch [OF TrueI, of lower_ascii ?t "9 / 10" True voice_state0] hit conf
  obtain i where i: "\<forall>j < i. \<not> has_keyword lower_ascii ?t (voiceCommands ! j)"
    "commands (processCommand lower_ascii True True ?t (9 / 10) voice_state0) =
       commands voice_state0 @ [action (voiceCommands ! i)]"
    by blast
  have "i = 0"
  proof (rule ccontr)
    assume "i \<noteq> 0"
    then have "0 < i" by simp
    with i(1) first show False by blast
  qed
  with i(2) have "commands (processCommand lower_ascii True True ?t (9 / 10) voice_state0) =
       [str ''takePhoto'']"
    by (simp add: voice_state0_def voiceCommands_def)
  with hit conf show ?thesis by blast
qed

subsection \<open>BatchProcessing: adding images\<close>

lemma addFiles_append:
  "addFiles newId mkUrl i fs prev =
     prev @ map (\<lambda>(k, f). newItem newId mkUrl k f)
              (filter (\<lambda>(k, f). startsWith (File.type f) (str ''image/'')) (enumerate i fs))"
  by (induction fs arbitrary: i prev) auto

lemma fileName_new_items:
  "map fileName (map (\<lambda>(k, f). newItem newId mkUrl k f)
       (filter (\<lambda>(k, f). P f) (enumerate i fs))) = map File.name (filter P fs)"
  by (induction fs arbitrary: i) (auto simp: newItem_def)

lemma status_new_items:
  "map status (map (\<lambda>(k, f). newItem newId mkUrl k f)
       (filter (\<lambda>(k, f). P f) (enumerate i fs))) = replicate (length (filter P fs)) Pending"
  by (induction fs arbitrary: i) (auto simp: newItem_def)

lemma progress_new_items:
  "map progress (map (\<lambda>(k, f). newItem newId mkUrl k f)
       (filter (\<lambda>(k, f). P f) (enumerate i fs))) = replicate (length (filter P fs)) 0"
  by (induction fs arbitrary: i) (auto simp: newItem_def)

lemma filter_drops_iff: "length (filter P xs) < length xs \<longleftrightarrow> (\<exists>x \<in> set xs. \<not> P x)"
proof (induction xs)
  case Nil
  show ?case by simp
next
  case (Cons x xs)
  have "length (filter P xs) \<le> length xs" by simp
  with Cons show ?case by auto
qed

text \<open>
  C9. For every selected file list, \<open>addImagesToBatch\<close> leaves the items already in the
  queue as they are and appends one new item for each file whose MIME type starts with
  "image/", in the order of the selection, each with the status "pending" and the progress
  0. The "Images Added" toast gives the number of all selected files, which is larger than
  the number of items added exactly when some selected file is not an image. For the
  \<open>null\<close> file list nothing changes.
\<close>

theorem C9_addImagesToBatch_appends_images:
  "batchItems (addImagesToBatch newId mkUrl (Some fs) s) =
     batchItems s @ map (\<lambda>(k, f). newItem newId mkUrl k f)
       (filter (\<lambda>(k, f). startsWith (File.type f) (str ''image/'')) (enumerate 0 fs)) \<and>
   take (length (batchItems s)) (batchItems (addImagesToBatch newId mkUrl (Some fs) s)) = batchItems s \<and>
   map fileName (drop (length (batchItems s)) (batchItems (addImagesToBatch newId mkUrl (Some fs) s))) =
     map File.name (filter (\<lambda>f. startsWith (File.type f) (str ''image/'')) fs) \<and>
   map status (drop (length (batchItems s)) (batchItems (addImagesToBatch newId mkUrl (Some fs) s))) =
     replicate (length (filter (\<lambda>f. startsWith (File.type f) (str ''image/'')) fs)) Pending \<and>
   map progress (drop (length (batchItems s)) (batchItems (addImagesToBatch newId mkUrl (Some fs) s))) =
     replicate (length (filter (\<lambda>f. startsWith (File.type f) (str ''image/'')) fs)) 0 \<and>
   batch_state.toasts (addImagesToBatch newId mkUrl (Some fs) s) =
     batch_state.toasts s @
       [\<lparr>toast.title = str ''Images Added'',
         toast.description = digits (length fs) @ str '' images added to batch queue'',
         destructive = False\<rparr>] \<and>
   (length (filter (\<lambda>f. startsWith (File.type f) (str ''image/'')) fs) < length fs \<longleftrightarrow>
      (\<exists>f \<in> set fs. \<not> startsWith (File.type f) (str ''image/''))) \<and>
   addImagesToBatch newId mkUrl None s = s"
proof -
  let ?P = "\<lambda>f. startsWith (File.type f) (str ''image/'')"
  let ?new = "map (\<lambda>(k, f). newItem newId mkUrl k f) (filter (\<lambda>(k, f). ?P f) (enumerate 0 fs))"
  have items: "batchItems (addImagesToBatch newId mkUrl (Some fs) s) = batchItems s @ ?new"
    by (simp add: addImagesToBatch_def addFiles_append)
  have dropped: "drop (length (batchItems s)) (batchItems (addImagesToBatch newId mkUrl (Some fs) s)) = ?new"
    by (simp add: items)
  have kept: "take (length (batchItems s)) (batchItems (addImagesToBatch newId mkUrl (Some fs) s)) = batchItems s"
    by (simp add: items)
  have names: "map fileName ?new = map File.name (filter ?P fs)"
    by (rule fileName_new_items)
  have stats: "map status ?new = replicate (length (filter ?P fs)) Pending"
    by (rule status_new_items)
  have progs: "map progress ?new = replicate (length (filter ?P fs)) 0"
    by (rule progress_new_items)
  have tst: "batch_state.toasts (addImagesToBatch newId mkUrl (Some fs) s) =
     batch_state.toasts s @
       [\<lparr>toast.title = str ''Images Added'',
         toast.description = digits (length fs) @ str '' images added to batch queue'',
         destructive = False\<rparr>]"
    by (simp add: addImagesToBatch_def)
  have over: "length (filter ?P fs) < length fs \<longleftrightarrow> (\<exists>f \<in> set fs. \<not> ?P f)"
    by (rule filter_drops_iff)
  have none: "addImagesToBatch newId mkUrl None s = s"
    by (simp add: addImagesToBatch_def)
  show ?thesis
    unfolding dropped using items kept names stats progs tst over none
    by (intro conjI) (assumption | simp only: items)+
qed

text \<open>
  Selecting \<open>cow.jpg\<close> and \<open>notes.txt\<close> on the empty queue adds the one image, and the toast
  says "2 images added to batch queue".
\<close>

lemma addImagesToBatch_overcount:
  "map fileName (batchItems (addImagesToBatch (\<lambda>i. digits i) (\<lambda>i. digits i)
       (Some [cowFile, notesFile]) batch_state0)) = [str ''cow.jpg''] \<and>
   map toast.description (batch_state.toasts (addImagesToBatch (\<lambda>i. digits i) (\<lambda>i. digits i)
       (Some [cowFile, notesFile]) batch_state0)) = [str ''2 images added to batch queue'']"
  by (simp add: addImagesToBatch_def batch_state0_def cowFile_def notesFile_def newItem_def
      startsWith_def str_def)

subsection \<open>BatchProcessing: the outcome of an item\<close>

lemma randomResult_in_table:
  assumes "0 \<le> r1" "r1 < 1"
  shows "\<exists>r \<in> set mockBreedResults. randomResult r1 = Some r"
proof -
  have len: "length mockBreedResults = 5" by (simp add: mockBreedResults_def)
  have "r1 * 5 < 5" using assms by simp
  then have "\<lfloor>r1 * 5\<rfloor> < 5" by (simp add: floor_less_iff)
  moreover have "0 \<le> \<lfloor>r1 * 5\<rfloor>" using assms by simp
  ultimately have k: "nat \<lfloor>r1 * 5\<rfloor> < 5" by arith
  then have "mockBreedResults ! nat \<lfloor>r1 * 5\<rfloor> \<in> set mockBreedResults"
    using len by simp
  moreover have "randomResult r1 = Some (mockBreedResults ! nat \<lfloor>r1 * 5\<rfloor>)"
    using k assms by (simp add: randomResult_def len)
  ultimately show ?thesis by blast
qed

text \<open>
  C5. For every pair of random draws (values of \<open>Math.random()\<close>, so at least 0 and below
  1), the update that finishes a batch item leaves it in exactly one of two states. When
  the success draw is greater than 0.1 the status is "completed", the result carries the
  breed and confidence of one of the five entries of \<open>mockBreedResults\<close> (Gir 87, Sahiwal
  82, Murrah 91, Red Sindhi 76, Nili Ravi 89) and there is no error message. Otherwise the
  status is "error", the message is "Failed to process image. Please try again." and there
  is no result.
\<close>

theorem C5_completeItem_two_outcomes:
  assumes "0 \<le> r1" "r1 < 1"
  shows "(\<exists>item'. completeItem r1 r2 now item = Some item' \<and>
      (if r2 > num_0_1 then
         BatchItem.status item' = Completed \<and>
         (\<exists>r \<in> set mockBreedResults.
            BatchItem.result item' = Some \<lparr>breed = breed r, BreedResult.confidence = BreedResult.confidence r, Result.timestamp = now\<rparr>) \<and>
         BatchItem.error item' = None
       else
         BatchItem.status item' = Error \<and> BatchItem.result item' = None \<and>
         BatchItem.error item' = Some (str ''Failed to process image. Please try again.''))) \<and>
    map (\<lambda>r. (breed r, BreedResult.confidence r)) mockBreedResults =
      [(str ''Gir'', 87), (str ''Sahiwal'', 82), (str ''Murrah'', 91), (str ''Red Sindhi'', 76),
       (str ''Nili Ravi'', 89)]"
proof (intro conjI)
  obtain r where r: "r \<in> set mockBreedResults" "randomResult r1 = Some r"
    using randomResult_in_table [OF assms] by blast
  show "\<exists>item'. completeItem r1 r2 now item = Some item' \<and>
      (if r2 > num_0_1 then
         BatchItem.status item' = Completed \<and>
         (\<exists>r \<in> set mockBreedResults.
            BatchItem.result item' = Some \<lparr>breed = breed r, BreedResult.confidence = BreedResult.confidence r, Result.timestamp = now\<rparr>) \<and>
         BatchItem.error item' = None
       else
         BatchItem.status item' = Error \<and> BatchItem.result item' = None \<and>
         BatchItem.error item' = Some (str ''Failed to process image. Please try again.''))"
  proof (cases "r2 > num_0_1")
    case True
    then have "completeItem r1 r2 now item =
        Some (item\<lparr>BatchItem.status := Completed,
                   BatchItem.result := Some \<lparr>breed = breed r, BreedResult.confidence = BreedResult.confidence r, Result.timestamp = now\<rparr>,
                   BatchItem.error := None\<rparr>)"
      using r(2) by (simp add: completeItem_def)
    with True r(1) show ?thesis by auto
  next
    case False
    then show ?thesis by (simp add: completeItem_def)
  qed
  show "map (\<lambda>r. (breed r, BreedResult.confidence r)) mockBreedResults =
      [(str ''Gir'', 87), (str ''Sahiwal'', 82), (str ''Murrah'', 91), (str ''Red Sindhi'', 76),
       (str ''Nili Ravi'', 89)]"
    by (simp add: mockBreedResults_def)
qed

text \<open>
  With the draws 0.5 and 0.5 the item is completed as Murrah, 91.
\<close>

theorem C5_completeItem_two_outcomes_witness:
  "(0::real) \<le> 1 / 2 \<and> (1 / 2 :: real) < 1 \<and> (1 / 2 :: real) > num_0_1 \<and>
   (\<exists>item'. completeItem (1 / 2) (1 / 2) 7 (newItem digits digits 0 cowFile) = Some item' \<and>
      BatchItem.status item' = Completed \<and> BatchItem.error item' = None \<and>
      BatchItem.result item' = Some \<lparr>breed = str ''Murrah'', BreedResult.confidence = 91, Result.timestamp = 7\<rparr>)"
proof -
  have a: "(0::real) \<le> 1 / 2" and b: "(1 / 2 :: real) < 1" by simp_all
  have c: "(1 / 2 :: real) > num_0_1" by (simp add: num_0_1_def)
  from C5_completeItem_two_outcomes [OF a b, of "1 / 2" 7 "newItem digits digits 0 cowFile"] c
  obtain item' where i: "completeItem (1 / 2) (1 / 2) 7 (newItem digits digits 0 cowFile) = Some item'"
      "BatchItem.status item' = Completed" "BatchItem.error item' = None"
    by auto
  have "completeItem (1 / 2) (1 / 2) 7 (newItem digits digits 0 cowFile) =
      Some ((newItem digits digits 0 cowFile)\<lparr>BatchItem.status := Completed,
         BatchItem.result := Some \<lparr>breed = str ''Murrah'', BreedResult.confidence = 91, Result.timestamp = 7\<rparr>, BatchItem.error := None\<rparr>)"
    by (simp add: completeItem_def randomResult_def mockBreedResults_def num_0_1_def)
  with i have "BatchItem.result item' = Some \<lparr>breed = str ''Murrah'', BreedResult.confidence = 91, Result.timestamp = 7\<rparr>"
    by auto
  with a b c i show ?thesis by blast
qed

subsection \<open>BatchProcessing: the processing loop\<close>

lemma set_setTimeout: "set (setTimeout t ts) = insert t (set ts)"
  by (induction ts) auto

lemma list_all_setTimeout: "list_all P (setTimeout t ts) \<longleftrightarrow> P t \<and> list_all P ts"
  by (auto simp: list_all_iff set_setTimeout)

lemma render_inv: "batch_inv s \<Longrightarrow> batch_inv (render s)"
  by (simp add: batch_inv_def render_def list_all_setTimeout)

lemma render_isProcessing: "isProcessing (render s) = isProcessing s"
  by (simp add: render_def)

lemma entry_inv:
  assumes "closureIndex t < length (closureItems t)" "batch_inv s"
  shows "batch_inv (processNextItem_entry t s)"
    and "isProcessing (processNextItem_entry t s) = isProcessing s"
  using assms by (simp_all add: batch_inv_def processNextItem_entry_def list_all_setTimeout)

lemma resume_inv:
  assumes "closureIndex t < length (closureItems t)" "batch_inv s"
  shows "batch_inv (processNextItem_resume p r1 r2 t s)"
    and "isProcessing (processNextItem_resume p r1 r2 t s) = isProcessing s"
  using assms
  by (simp_all add: batch_inv_def processNextItem_resume_def Let_def list_all_setTimeout)

lemma tick_inv:
  assumes "batch_inv s"
  shows "batch_inv (tick r1 r2 s)" and "isProcessing (tick r1 r2 s) = isProcessing s"
proof -
  show "batch_inv (tick r1 r2 s)"
  proof (cases "timers s")
    case Nil
    then show ?thesis using assms by (simp add: tick_def)
  next
    case (Cons t ts)
    let ?s1 = "s\<lparr>timers := ts, clock := max (clock s) (due t)\<rparr>"
    have t: "closureIndex t < length (closureItems t)" and s1: "batch_inv ?s1"
      using assms Cons by (simp_all add: batch_inv_def)
    show ?thesis
    proof (cases "position t")
      case Entry
      then show ?thesis
        using Cons render_inv [OF entry_inv(1) [OF t s1]] by (simp add: tick_def)
    next
      case (Resume p)
      then show ?thesis
        using Cons render_inv [OF resume_inv(1) [OF t s1]] by (simp add: tick_def)
    qed
  qed
  show "isProcessing (tick r1 r2 s) = isProcessing s"
  proof (cases "timers s")
    case Nil
    then show ?thesis by (simp add: tick_def)
  next
    case (Cons t ts)
    let ?s1 = "s\<lparr>timers := ts, clock := max (clock s) (due t)\<rparr>"
    have t: "closureIndex t < length (closureItems t)" and s1: "batch_inv ?s1"
      using assms Cons by (simp_all add: batch_inv_def)
    show ?thesis
    proof (cases "position t")
      case Entry
      then show ?thesis
        using Cons entry_inv(2) [OF t s1] by (simp add: tick_def render_isProcessing)
    next
      case (Resume p)
      then show ?thesis
        using Cons resume_inv(2) [OF t s1] by (simp add: tick_def render_isProcessing)
    qed
  qed
qed

lemma completeToast_titles:
  "completeToast \<noteq> \<lparr>toast.title = str ''Images Added'', toast.description = d, destructive = False\<rparr>"
  "completeToast \<noteq> \<lparr>toast.title = str ''No Images'', toast.description = d, destructive = True\<rparr>"
  by (simp_all add: completeToast_def str_def)

lemma addImagesToBatch_inv: "batch_inv s \<Longrightarrow> batch_inv (addImagesToBatch newId mkUrl files s)"
  by (cases files) (simp_all add: batch_inv_def addImagesToBatch_def completeToast_titles)

lemma startBatchProcessing_inv: "batch_inv s \<Longrightarrow> batch_inv (startBatchProcessing s)"
  by (simp add: batch_inv_def startBatchProcessing_def completeToast_titles)

lemma fire_inv: "batch_inv s \<Longrightarrow> batch_inv (fire e s)"
proof (cases e)
  case (AddImages newId mkUrl files)
  assume "batch_inv s"
  then show ?thesis using AddImages
    by (cases files) (simp_all add: render_inv addImagesToBatch_inv)
next
  case Rerender
  assume "batch_inv s"
  then show ?thesis using Rerender by (simp add: render_inv)
next
  case Start
  assume "batch_inv s"
  then show ?thesis using Start by (simp add: render_inv startBatchProcessing_inv)
next
  case Pause
  assume "batch_inv s"
  then have "batch_inv (pauseProcessing s)" by (simp add: batch_inv_def pauseProcessing_def)
  then show ?thesis using Pause \<open>batch_inv s\<close> by (simp add: render_inv)
next
  case Clear
  assume "batch_inv s"
  then have "batch_inv (clearBatch s)" by (simp add: batch_inv_def clearBatch_def)
  then show ?thesis using Clear \<open>batch_inv s\<close> by (simp add: render_inv)
next
  case (Remove index)
  assume "batch_inv s"
  then have "batch_inv (removeItem i s)" for i by (simp add: batch_inv_def removeItem_def)
  then show ?thesis using Remove \<open>batch_inv s\<close> by (simp add: render_inv)
next
  case (Tick r1 r2)
  assume "batch_inv s"
  then show ?thesis using Tick by (simp add: tick_inv(1))
next
  case (Wait d)
  assume "batch_inv s"
  then show ?thesis using Wait by (simp add: batch_inv_def split: list.split)
qed

lemma run_inv: "batch_inv s \<Longrightarrow> batch_inv (run evs s)"
  unfolding run_def by (induction evs arbitrary: s) (simp_all add: fire_inv)

lemma batch_inv_initial: "batch_inv batch_state0"
  by (simp add: batch_inv_def batch_state0_def)

lemma run_append: "run (evs @ evs') s = run evs' (run evs s)"
  by (simp add: run_def)

lemma run_Cons: "run (e # evs) s = run evs (fire e s)"
  by (simp add: run_def)

lemma run_Nil: "run [] s = s"
  by (simp add: run_def)
lemma sum_weight_setTimeout:
  fixes w :: "task \<Rightarrow> nat"
  shows "sum_list (map w (setTimeout t ts)) = w t + sum_list (map w ts)"
  by (induction ts) (auto simp: ac_simps)

lemma sorted_setTimeout:
  "sorted (map due ts) \<Longrightarrow> sorted (map due (setTimeout t ts))"
  by (induction ts) (auto simp: set_setTimeout)

lemma weight_later:
  assumes "due t + 100 \<le> due t'" "due t \<le> D"
  shows "2 * weight D t' < weight D t"
proof (cases "due t' \<le> D")
  case True
  have lt: "Suc (D - due t') < D - due t" using assms True by arith
  have "(2::nat) ^ Suc (D - due t') < 2 ^ (D - due t)"
    using lt by (rule power_strict_increasing) simp
  then show ?thesis using True assms by (simp add: weight_def)
next
  case False
  then show ?thesis using assms by (simp add: weight_def)
qed

lemma run_ticks: "run (replicate n (Tick a b)) s = (tick a b ^^ n) s"
  by (induction n arbitrary: s) (simp_all add: run_def funpow_swap1)

lemma length_map_at: "length (map_at k f xs) = length xs"
  by (simp add: map_at_def)

lemma render_facts:
  "timers (render s) =
     (if isProcessing s \<and> currentProcessingIndex s < length (batchItems s)
      then setTimeout (renderTimer s) (timers s) else timers s)"
  "clock (render s) = clock s"
  "currentProcessingIndex (render s) = currentProcessingIndex s"
  "batchItems (render s) = batchItems s"
  by (simp_all add: render_def renderTimer_def)

lemma entry_facts:
  assumes "closureIndex t < length (closureItems t)"
  shows "timers (processNextItem_entry t s) =
           setTimeout (t\<lparr>due := clock s + 150, position := Resume 0\<rparr>) (timers s)"
    "clock (processNextItem_entry t s) = clock s"
    "currentProcessingIndex (processNextItem_entry t s) = currentProcessingIndex s"
    "length (batchItems (processNextItem_entry t s)) = length (batchItems s)"
  using assms by (simp_all add: processNextItem_entry_def length_map_at)

lemma resume_facts_loop:
  assumes "p + 10 \<le> 100"
  shows "timers (processNextItem_resume p a b t s) =
           setTimeout (t\<lparr>due := clock s + 150, position := Resume (p + 10)\<rparr>) (timers s)"
    "clock (processNextItem_resume p a b t s) = clock s"
    "currentProcessingIndex (processNextItem_resume p a b t s) = currentProcessingIndex s"
    "length (batchItems (processNextItem_resume p a b t s)) = length (batchItems s)"
  using assms by (simp_all add: processNextItem_resume_def Let_def length_map_at)

lemma resume_facts_exit:
  assumes "\<not> p + 10 \<le> 100"
  shows "timers (processNextItem_resume p a b t s) = timers s"
    "clock (processNextItem_resume p a b t s) = clock s"
    "currentProcessingIndex (processNextItem_resume p a b t s) = currentProcessingIndex s + 1"
    "length (batchItems (processNextItem_resume p a b t s)) = length (batchItems s)"
  using assms by (simp_all add: processNextItem_resume_def Let_def length_map_at)

lemma renderTimer_due: "due (renderTimer s) = clock s + 100"
  by (simp add: renderTimer_def)

lemma tick_unfold:
  "timers s = t # ts \<Longrightarrow>
   tick a b s = render (case position t of
                         Entry \<Rightarrow> processNextItem_entry t (s\<lparr>timers := ts, clock := max (clock s) (due t)\<rparr>)
                       | Resume p \<Rightarrow> processNextItem_resume p a b t (s\<lparr>timers := ts, clock := max (clock s) (due t)\<rparr>))"
  by (simp add: tick_def Let_def)

text \<open>What one timer callback does to the timers, the clock, the index and the queue.\<close>

lemma tick_step:
  assumes inv: "batch_inv s" and ord: "timers_ordered s" and tm: "timers s = t # ts"
  shows "\<exists>new. timers (tick a b s) = foldr setTimeout new ts \<and> length new \<le> 2 \<and>
           list_all (\<lambda>u. due t + 100 \<le> due u) new \<and>
           clock (tick a b s) = due t \<and>
           currentProcessingIndex s \<le> currentProcessingIndex (tick a b s) \<and>
           length (batchItems (tick a b s)) = length (batchItems s) \<and>
           (on_schedule t \<longrightarrow> 1 \<le> currentProcessingIndex (tick a b s) \<or> list_ex on_schedule new)"
proof -
  have inside: "closureIndex t < length (closureItems t)"
    using inv tm by (simp add: batch_inv_def)
  have clk: "max (clock s) (due t) = due t"
    using ord tm by (simp add: timers_ordered_def)
  define s1 where "s1 = s\<lparr>timers := ts, clock := due t\<rparr>"
  have s1: "timers s1 = ts" "clock s1 = due t" "currentProcessingIndex s1 = currentProcessingIndex s"
    "batchItems s1 = batchItems s"
    by (simp_all add: s1_def)
  show ?thesis
  proof (cases "position t")
    case Entry
    define s2 where "s2 = processNextItem_entry t s1"
    define c where "c = t\<lparr>due := due t + 150, position := Resume 0\<rparr>"
    have tk: "tick a b s = render s2"
      using tm Entry clk by (simp add: tick_unfold s2_def s1_def)
    have s2: "timers s2 = setTimeout c ts" "clock s2 = due t"
      "currentProcessingIndex s2 = currentProcessingIndex s"
      "length (batchItems s2) = length (batchItems s)"
      using entry_facts [OF inside, of s1] by (simp_all add: s2_def s1 c_def)
    have c: "due c = due t + 150" "on_schedule t \<longrightarrow> on_schedule c"
      using Entry by (simp_all add: c_def on_schedule_def)
    define new where "new = (if isProcessing s2 \<and> currentProcessingIndex s2 < length (batchItems s2)
        then [renderTimer s2, c] else [c])"
    have "timers (tick a b s) = foldr setTimeout new ts"
      by (simp add: tk render_facts s2 new_def)
    moreover have "length new \<le> 2" by (simp add: new_def)
    moreover have "list_all (\<lambda>u. due t + 100 \<le> due u) new"
      by (simp add: new_def renderTimer_due s2 c)
    moreover have "on_schedule t \<longrightarrow> list_ex on_schedule new"
      using c by (simp add: new_def)
    moreover have "clock (tick a b s) = due t"
      "currentProcessingIndex s \<le> currentProcessingIndex (tick a b s)"
      "length (batchItems (tick a b s)) = length (batchItems s)"
      by (simp_all add: tk render_facts s2)
    ultimately show ?thesis by blast
  next
    case (Resume p)
    define s2 where "s2 = processNextItem_resume p a b t s1"
    have tk: "tick a b s = render s2"
      using tm Resume clk by (simp add: tick_unfold s2_def s1_def)
    show ?thesis
    proof (cases "p + 10 \<le> 100")
      case True
      define c where "c = t\<lparr>due := due t + 150, position := Resume (p + 10)\<rparr>"
      have s2: "timers s2 = setTimeout c ts" "clock s2 = due t"
        "currentProcessingIndex s2 = currentProcessingIndex s"
        "length (batchItems s2) = length (batchItems s)"
        using resume_facts_loop [OF True, of a b t s1] by (simp_all add: s2_def s1 c_def)
      have c: "due c = due t + 150" "on_schedule t \<longrightarrow> on_schedule c"
        using Resume True by (simp_all add: c_def on_schedule_def)
      define new where "new = (if isProcessing s2 \<and> currentProcessingIndex s2 < length (batchItems s2)
          then [renderTimer s2, c] else [c])"
      have "timers (tick a b s) = foldr setTimeout new ts"
        by (simp add: tk render_facts s2 new_def)
      moreover have "length new \<le> 2" by (simp add: new_def)
      moreover have "list_all (\<lambda>u. due t + 100 \<le> due u) new"
        by (simp add: new_def renderTimer_due s2 c)
      moreover have "on_schedule t \<longrightarrow> list_ex on_schedule new"
        using c by (simp add: new_def)
      moreover have "clock (tick a b s) = due t"
        "currentProcessingIndex s \<le> currentProcessingIndex (tick a b s)"
        "length (batchItems (tick a b s)) = length (batchItems s)"
        by (simp_all add: tk render_facts s2)
      ultimately show ?thesis by blast
    next
      case False
      have s2: "timers s2 = ts" "clock s2 = due t"
        "currentProcessingIndex s2 = currentProcessingIndex s + 1"
        "length (batchItems s2) = length (batchItems s)"
        using resume_facts_exit [OF False, of a b t s1] by (simp_all add: s2_def s1)
      define new where "new = (if isProcessing s2 \<and> currentProcessingIndex s2 < length (batchItems s2)
          then [renderTimer s2] else [])"
      have "timers (tick a b s) = foldr setTimeout new ts"
        by (simp add: tk render_facts s2 new_def)
      moreover have "length new \<le> 2" by (simp add: new_def)
      moreover have "list_all (\<lambda>u. due t + 100 \<le> due u) new"
        by (simp add: new_def renderTimer_due s2)
      moreover have "clock (tick a b s) = due t"
        "1 \<le> currentProcessingIndex (tick a b s)"
        "currentProcessingIndex s \<le> currentProcessingIndex (tick a b s)"
        "length (batchItems (tick a b s)) = length (batchItems s)"
        by (simp_all add: tk render_facts s2)
      ultimately show ?thesis by blast
    qed
  qed
qed

lemma set_foldr_setTimeout: "set (foldr setTimeout new ts) = set new \<union> set ts"
  by (induction new) (auto simp: set_setTimeout)

lemma sorted_foldr_setTimeout:
  "sorted (map due ts) \<Longrightarrow> sorted (map due (foldr setTimeout new ts))"
  by (induction new) (auto simp: sorted_setTimeout)

lemma sum_weight_foldr_setTimeout:
  fixes w :: "task \<Rightarrow> nat"
  shows "sum_list (map w (foldr setTimeout new ts)) = sum_list (map w new) + sum_list (map w ts)"
  by (induction new) (auto simp: sum_weight_setTimeout)

lemma two_light_timers:
  fixes w :: "task \<Rightarrow> nat"
  assumes "length new \<le> 2" "list_all (\<lambda>u. 2 * w u < W) new" "0 < W"
  shows "sum_list (map w new) < W"
proof (cases new)
  case Nil
  then show ?thesis using assms by simp
next
  case (Cons u us)
  show ?thesis
  proof (cases us)
    case Nil
    then show ?thesis using assms Cons by simp
  next
    case (Cons v vs)
    then have "vs = []" using assms(1) \<open>new = u # us\<close> by simp
    then show ?thesis using assms Cons \<open>new = u # us\<close> by simp
  qed
qed

lemma tick_ordered:
  assumes inv: "batch_inv s" and ord: "timers_ordered s"
  shows "timers_ordered (tick a b s)"
proof (cases "timers s")
  case Nil
  then show ?thesis using ord by (simp add: tick_def)
next
  case (Cons t ts)
  from tick_step [OF inv ord Cons, of a b]
  obtain new where new: "timers (tick a b s) = foldr setTimeout new ts"
      "list_all (\<lambda>u. due t + 100 \<le> due u) new" "clock (tick a b s) = due t"
    by blast
  have sorted: "sorted (map due ts)" and later: "\<forall>u \<in> set ts. due t \<le> due u"
    using ord Cons by (auto simp: timers_ordered_def)
  have "sorted (map due (timers (tick a b s)))"
    using sorted by (simp add: new(1) sorted_foldr_setTimeout)
  moreover have "\<forall>u \<in> set (timers (tick a b s)). clock (tick a b s) \<le> due u"
    using new later by (auto simp: set_foldr_setTimeout list_all_iff)
  ultimately show ?thesis by (simp add: timers_ordered_def list_all_iff)
qed

lemma tick_potential:
  assumes inv: "batch_inv s" and ord: "timers_ordered s" and tm: "timers s = t # ts"
    and due: "due t \<le> D"
  shows "potential D (tick a b s) < potential D s"
proof -
  from tick_step [OF inv ord tm, of a b]
  obtain new where new: "timers (tick a b s) = foldr setTimeout new ts" "length new \<le> 2"
      "list_all (\<lambda>u. due t + 100 \<le> due u) new"
    by blast
  have "list_all (\<lambda>u. 2 * weight D u < weight D t) new"
    using new(3) due by (auto simp: list_all_iff intro: weight_later)
  moreover have "0 < weight D t" using due by (simp add: weight_def)
  ultimately have "sum_list (map (weight D) new) < weight D t"
    using new(2) by (intro two_light_timers)
  then show ?thesis
    by (simp add: potential_def new(1) tm sum_weight_foldr_setTimeout)
qed

lemma tick_alive:
  assumes inv: "batch_inv s" and ord: "timers_ordered s" and alive: "first_call_alive s"
  shows "first_call_alive (tick a b s)"
proof (cases "timers s")
  case Nil
  then show ?thesis using alive by (simp add: tick_def)
next
  case (Cons t ts)
  from tick_step [OF inv ord Cons, of a b]
  obtain new where new: "timers (tick a b s) = foldr setTimeout new ts"
      "currentProcessingIndex s \<le> currentProcessingIndex (tick a b s)"
      "on_schedule t \<longrightarrow> 1 \<le> currentProcessingIndex (tick a b s) \<or> list_ex on_schedule new"
    by blast
  show ?thesis
  proof (cases "1 \<le> currentProcessingIndex s")
    case True
    then show ?thesis using new(2) by (simp add: first_call_alive_def)
  next
    case False
    then obtain u where u: "u \<in> set (t # ts)" "on_schedule u"
      using alive Cons by (auto simp: first_call_alive_def list_ex_iff)
    show ?thesis
    proof (cases "u = t")
      case True
      then show ?thesis
        using u(2) new(1,3) by (auto simp: first_call_alive_def list_ex_iff set_foldr_setTimeout)
    next
      case False
      then have "u \<in> set (timers (tick a b s))"
        using u(1) by (simp add: new(1) set_foldr_setTimeout)
      then show ?thesis
        using u(2) by (auto simp: first_call_alive_def list_ex_iff)
    qed
  qed
qed

lemma tick_keeps_length:
  assumes "batch_inv s" "timers_ordered s"
  shows "length (batchItems (tick a b s)) = length (batchItems s)"
proof (cases "timers s")
  case Nil
  then show ?thesis by (simp add: tick_def)
next
  case (Cons t ts)
  from tick_step [OF assms Cons, of a b] show ?thesis by blast
qed

text \<open>All of this holds after any number of timer callbacks.\<close>

lemma ticks_keep:
  assumes "batch_inv s" "timers_ordered s"
  shows "batch_inv ((tick a b ^^ n) s) \<and> timers_ordered ((tick a b ^^ n) s) \<and>
         isProcessing ((tick a b ^^ n) s) = isProcessing s \<and>
         length (batchItems ((tick a b ^^ n) s)) = length (batchItems s) \<and>
         (first_call_alive s \<longrightarrow> first_call_alive ((tick a b ^^ n) s))"
proof (induction n)
  case 0
  show ?case using assms by simp
next
  case (Suc n)
  let ?s = "(tick a b ^^ n) s"
  have inv: "batch_inv ?s" and ord: "timers_ordered ?s" using Suc by blast+
  show ?case
    using Suc tick_inv [OF inv, of a b] tick_ordered [OF inv ord, of a b]
      tick_keeps_length [OF inv ord, of a b] tick_alive [OF inv ord, of a b]
    by simp
qed

text \<open>Time passes: the timer callbacks do not pile up before any time \<open>D\<close>.\<close>

lemma time_passes:
  assumes "batch_inv s" "timers_ordered s"
  shows "\<exists>n. list_all (\<lambda>t. D < due t) (timers ((tick a b ^^ n) s))"
  using assms
proof (induction "potential D s" arbitrary: s rule: less_induct)
  case less
  show ?case
  proof (cases "timers s")
    case Nil
    then have "list_all (\<lambda>t. D < due t) (timers ((tick a b ^^ 0) s))" by simp
    then show ?thesis by blast
  next
    case (Cons t ts)
    show ?thesis
    proof (cases "due t \<le> D")
      case True
      have "potential D (tick a b s) < potential D s"
        using less.prems Cons True by (rule tick_potential)
      moreover have "batch_inv (tick a b s)" "timers_ordered (tick a b s)"
        using less.prems by (simp_all add: tick_inv(1) tick_ordered)
      ultimately obtain n where "list_all (\<lambda>t. D < due t) (timers ((tick a b ^^ n) (tick a b s)))"
        using less.hyps by blast
      then have "list_all (\<lambda>t. D < due t) (timers ((tick a b ^^ Suc n) s))"
        by (simp add: funpow_swap1)
      then show ?thesis by blast
    next
      case False
      have "\<forall>u \<in> set (timers s). due t \<le> due u"
        using less.prems(2) Cons by (auto simp: timers_ordered_def)
      then have "list_all (\<lambda>t. D < due t) (timers ((tick a b ^^ 0) s))"
        using False by (auto simp: list_all_iff)
      then show ?thesis by blast
    qed
  qed
qed

lemma on_schedule_due: "on_schedule t \<Longrightarrow> due t \<le> 1750"
  by (cases "position t") (auto simp: on_schedule_def)

text \<open>
  With one image in the queue and Start pressed, the timer callbacks bring the index to
  the length of the queue, and processing is still on.
\<close>

lemma index_reaches_length:
  "\<exists>n. length (batchItems (run (oneImageStarted @ replicate n (Tick a b)) batch_state0)) \<le>
          currentProcessingIndex (run (oneImageStarted @ replicate n (Tick a b)) batch_state0) \<and>
        isProcessing (run (oneImageStarted @ replicate n (Tick a b)) batch_state0)"
proof -
  define s where "s = run oneImageStarted batch_state0"
  have inv: "batch_inv s"
    unfolding s_def by (rule run_inv [OF batch_inv_initial])
  note ev = run_Cons run_Nil oneImageStarted_def batch_state0_def addImagesToBatch_def
    cowFile_def newItem_def startsWith_def str_def render_def startBatchProcessing_def
  have start: "isProcessing s" "length (batchItems s) = 1" "timers_ordered s" "first_call_alive s"
    unfolding s_def
    by (simp_all add: ev timers_ordered_def first_call_alive_def on_schedule_def)
  obtain n where n: "list_all (\<lambda>t. 1750 < due t) (timers ((tick a b ^^ n) s))"
    using time_passes [OF inv start(3)] by blast
  let ?s = "(tick a b ^^ n) s"
  have keep: "isProcessing ?s" "length (batchItems ?s) = 1" "first_call_alive ?s"
    using ticks_keep [OF inv start(3), where a = a and b = b and n = n] start by simp_all
  have "\<not> list_ex on_schedule (timers ?s)"
    using n on_schedule_due by (fastforce simp: list_all_iff list_ex_iff)
  then have "1 \<le> currentProcessingIndex ?s"
    using keep(3) by (simp add: first_call_alive_def)
  then have reached: "length (batchItems ?s) \<le> currentProcessingIndex ?s \<and> isProcessing ?s"
    using keep by simp
  have eq: "run (oneImageStarted @ replicate n (Tick a b)) batch_state0 = ?s"
    by (simp add: run_append run_ticks s_def)
  from reached
  have "length (batchItems (run (oneImageStarted @ replicate n (Tick a b)) batch_state0)) \<le>
          currentProcessingIndex (run (oneImageStarted @ replicate n (Tick a b)) batch_state0) \<and>
        isProcessing (run (oneImageStarted @ replicate n (Tick a b)) batch_state0)"
    by (simp only: eq)
  then show ?thesis by (rule exI)
qed

text \<open>
  C4. The claim: while batch processing is active the queue items are processed strictly
  one at a time in queue order, the progress of the processed item is set to 0, 10, ...,
  100 in increasing order, 150 ms before each update, and when the index reaches the length
  of the queue processing stops (\<open>isProcessing\<close> becomes false) with a "Batch Processing
  Complete" toast. The component does not do this. The render sets a timer for
  \<open>processNextItem\<close> only while the index is below the length of the queue, and the
  callback tests the index and the queue of that same render, so its completion branch
  never runs: after every sequence of events the toasts hold no "Batch Processing Complete",
  and no timer callback changes \<open>isProcessing\<close>. With a queue of one image and Start
  pressed, the timer callbacks do bring the index to the length of the queue, and
  processing is still on then. Every update of the queue renders the component again and
  so starts one more \<open>processNextItem\<close> for the same index: after two timer callbacks
  three calls for item 0 are pending, two of them inside their progress loop; after seven
  callbacks the progress of the item is 10, and after nine it is 0 again.
\<close>

theorem C4_processing_overlaps_and_never_completes:
  "completeToast \<notin> set (batch_state.toasts (run evs batch_state0)) \<and>
   isProcessing (fire (Tick r1 r2) (run evs batch_state0)) = isProcessing (run evs batch_state0) \<and>
   (\<exists>n. length (batchItems (run (oneImageStarted @ replicate n (Tick a b)) batch_state0)) \<le>
          currentProcessingIndex (run (oneImageStarted @ replicate n (Tick a b)) batch_state0) \<and>
        isProcessing (run (oneImageStarted @ replicate n (Tick a b)) batch_state0)) \<and>
   map (\<lambda>t. (due t, closureIndex t, position t))
     (timers (run (oneImageStarted @ [Tick a b, Tick a b]) batch_state0)) =
     [(250, 0, Resume 0), (300, 0, Entry), (350, 0, Resume 0)] \<and>
   map progress (batchItems (run (oneImageStarted @
       [Tick a b, Tick a b, Tick a b, Tick a b, Tick a b, Tick a b, Tick a b]) batch_state0)) = [10] \<and>
   map progress (batchItems (run (oneImageStarted @
       [Tick a b, Tick a b, Tick a b, Tick a b, Tick a b, Tick a b, Tick a b, Tick a b, Tick a b])
       batch_state0)) = [0]"
proof (intro conjI)
  have inv: "batch_inv (run evs batch_state0)"
    by (rule run_inv [OF batch_inv_initial])
  then show "completeToast \<notin> set (batch_state.toasts (run evs batch_state0))"
    by (simp add: batch_inv_def)
  show "isProcessing (fire (Tick r1 r2) (run evs batch_state0)) = isProcessing (run evs batch_state0)"
    using tick_inv(2) [OF inv] by simp
  show "\<exists>n. length (batchItems (run (oneImageStarted @ replicate n (Tick a b)) batch_state0)) \<le>
          currentProcessingIndex (run (oneImageStarted @ replicate n (Tick a b)) batch_state0) \<and>
        isProcessing (run (oneImageStarted @ replicate n (Tick a b)) batch_state0)"
    by (rule index_reaches_length)
  note ev = run_append run_Cons run_Nil oneImageStarted_def batch_state0_def addImagesToBatch_def
    cowFile_def newItem_def startsWith_def str_def render_def startBatchProcessing_def tick_def
    processNextItem_entry_def processNextItem_resume_def map_at_def Let_def
  show "map (\<lambda>t. (due t, closureIndex t, position t))
     (timers (run (oneImageStarted @ [Tick a b, Tick a b]) batch_state0)) =
     [(250, 0, Resume 0), (300, 0, Entry), (350, 0, Resume 0)]"
    by (simp add: ev)
  show "map progress (batchItems (run (oneImageStarted @
       [Tick a b, Tick a b, Tick a b, Tick a b, Tick a b, Tick a b, Tick a b]) batch_state0)) = [10]"
    by (simp add: ev)
  show "map progress (batchItems (run (oneImageStarted @
       [Tick a b, Tick a b, Tick a b, Tick a b, Tick a b, Tick a b, Tick a b, Tick a b, Tick a b])
       batch_state0)) = [0]"
    by (simp add: ev)
qed

subsection \<open>GeolocationFeatures\<close>

text \<open>
  C6, as claimed: \<open>getCurrentLocation\<close> reports its outcome with a toast in both
  directions, and every failure other than the three error codes gets the message "Failed
  to get location". In a browser without a geolocation API the call fails with its own
  message and shows no toast.
\<close>

theorem C6_unsupported_browser_counterexample:
  "geo_state.toasts (getCurrentLocation (\<lambda>x. []) (\<lambda>x. []) False False 0 (Rejected None) geo_state0) = [] \<and>
   geo_state.error (getCurrentLocation (\<lambda>x. []) (\<lambda>x. []) False False 0 (Rejected None) geo_state0) =
     Some (str ''Geolocation is not supported by this browser'') \<and>
   str ''Geolocation is not supported by this browser'' \<noteq> str ''Failed to get location''"
  by (simp add: getCurrentLocation_def geo_state0_def str_def)

text \<open>
  C6, amended. In a browser that has a geolocation API, \<open>getCurrentLocation\<close> reports its
  outcome with a toast in both directions. On success it stores the new location, merged
  with the mock reverse-geocoded address, clears the error and shows a "Location Updated"
  toast. On failure it leaves the stored location unchanged, sets the error message that
  the error code determines (1: permission denied, 2: GPS unavailable, 3: timeout, anything
  else: "Failed to get location") and shows a destructive "Location Error" toast with that
  message. In either case \<open>isLoading\<close> is false afterwards. Without a geolocation API it
  only sets the error "Geolocation is not supported by this browser".
\<close>

theorem C6_getCurrentLocation_outcomes:
  assumes "hasGeolocation"
  shows
   "geo_state.location (getCurrentLocation toFixed4 showRounded hasGeolocation cb now (Position lat lng acc) s) =
      Some \<lparr>latitude = lat, longitude = lng, accuracy = acc, LocationData.timestamp = now,
            address = Some (str ''Latitude: '' @ toFixed4 lat @ str '', Longitude: '' @ toFixed4 lng),
            district = Some (str ''Sample District''),
            state = Some (mockState lat),
            country = Some (str ''India'')\<rparr> \<and>
    geo_state.toasts (getCurrentLocation toFixed4 showRounded hasGeolocation cb now (Position lat lng acc) s) =
      geo_state.toasts s @
        [\<lparr>toast.title = str ''Location Updated'',
          toast.description = str ''Location captured with '' @ showRounded acc @ str ''m accuracy'',
          destructive = False\<rparr>] \<and>
    geo_state.error (getCurrentLocation toFixed4 showRounded hasGeolocation cb now (Position lat lng acc) s) = None \<and>
    \<not> geo_state.isLoading (getCurrentLocation toFixed4 showRounded hasGeolocation cb now (Position lat lng acc) s) \<and>
    geo_state.location (getCurrentLocation toFixed4 showRounded hasGeolocation cb now (Rejected code) s) =
      geo_state.location s \<and>
    geo_state.error (getCurrentLocation toFixed4 showRounded hasGeolocation cb now (Rejected code) s) =
      Some (errorMessage code) \<and>
    geo_state.toasts (getCurrentLocation toFixed4 showRounded hasGeolocation cb now (Rejected code) s) =
      geo_state.toasts s @
        [\<lparr>toast.title = str ''Location Error'', toast.description = errorMessage code, destructive = True\<rparr>] \<and>
    \<not> geo_state.isLoading (getCurrentLocation toFixed4 showRounded hasGeolocation cb now (Rejected code) s) \<and>
    errorMessage (Some 1) = str ''Location access denied. Please enable location permissions.'' \<and>
    errorMessage (Some 2) = str ''Location unavailable. Please check your GPS settings.'' \<and>
    errorMessage (Some 3) = str ''Location request timed out. Please try again.'' \<and>
    (code \<notin> {Some 1, Some 2, Some 3} \<longrightarrow> errorMessage code = str ''Failed to get location'') \<and>
    getCurrentLocation toFixed4 showRounded False cb now reply s =
      s\<lparr>error := Some (str ''Geolocation is not supported by this browser'')\<rparr>"
  using assms
  by (simp add: getCurrentLocation_def reverseGeocode_def errorMessage_def Let_def)

text \<open>
  A timeout (code 3) after a position was stored: the position stays, the error is the
  timeout message, and the toast is a destructive "Location Error".
\<close>

theorem C6_getCurrentLocation_outcomes_witness:
  "geo_state.location (getCurrentLocation (\<lambda>x. []) (\<lambda>x. []) True False 9 (Rejected (Some 3))
      (getCurrentLocation (\<lambda>x. []) (\<lambda>x. []) True False 5 (Position 30 75 12) geo_state0)) =
      Some \<lparr>latitude = 30, longitude = 75, accuracy = 12, LocationData.timestamp = 5,
            address = Some (str ''Latitude: , Longitude: ''),
            district = Some (str ''Sample District''),
            state = Some (str ''Punjab''),
            country = Some (str ''India'')\<rparr> \<and>
   map toast.title (geo_state.toasts (getCurrentLocation (\<lambda>x. []) (\<lambda>x. []) True False 9 (Rejected (Some 3))
      (getCurrentLocation (\<lambda>x. []) (\<lambda>x. []) True False 5 (Position 30 75 12) geo_state0))) =
      [str ''Location Updated'', str ''Location Error''] \<and>
   geo_state.error (getCurrentLocation (\<lambda>x. []) (\<lambda>x. []) True False 9 (Rejected (Some 3))
      (getCurrentLocation (\<lambda>x. []) (\<lambda>x. []) True False 5 (Position 30 75 12) geo_state0)) =
      Some (str ''Location request timed out. Please try again.'')"
proof -
  let ?s1 = "getCurrentLocation (\<lambda>x. []) (\<lambda>x. []) True False 5 (Position 30 75 12) geo_state0"
  note ok = C6_getCurrentLocation_outcomes [OF TrueI, of "\<lambda>x. []" "\<lambda>x. []" False]
  have loc1: "geo_state.location ?s1 =
      Some \<lparr>latitude = 30, longitude = 75, accuracy = 12, LocationData.timestamp = 5,
            address = Some (str ''Latitude: , Longitude: ''),
            district = Some (str ''Sample District''),
            state = Some (str ''Punjab''),
            country = Some (str ''India'')\<rparr>"
    using ok [of 5 30 75 12 geo_state0] by (simp add: mockState_def str_def)
  have t1: "geo_state.toasts ?s1 =
      [\<lparr>toast.title = str ''Location Updated'',
        toast.description = str ''Location captured with '' @ [] @ str ''m accuracy'',
        destructive = False\<rparr>]"
    using ok [of 5 30 75 12 geo_state0] by (simp add: geo_state0_def)
  have "geo_state.location (getCurrentLocation (\<lambda>x. []) (\<lambda>x. []) True False 9 (Rejected (Some 3)) ?s1) =
      geo_state.location ?s1"
    using ok [of 9 _ _ _ ?s1 "Some 3"] by blast
  moreover have "geo_state.toasts (getCurrentLocation (\<lambda>x. []) (\<lambda>x. []) True False 9 (Rejected (Some 3)) ?s1) =
      geo_state.toasts ?s1 @
        [\<lparr>toast.title = str ''Location Error'', toast.description = errorMessage (Some 3), destructive = True\<rparr>]"
    using ok [of 9 _ _ _ ?s1 "Some 3"] by blast
  moreover have "geo_state.error (getCurrentLocation (\<lambda>x. []) (\<lambda>x. []) True False 9 (Rejected (Some 3)) ?s1) =
      Some (str ''Location request timed out. Please try again.'')"
    using ok [of 9 _ _ _ ?s1 "Some 3"] by simp
  ultimately show ?thesis
    using loc1 t1 by simp
qed

subsection \<open>MultiAngleCapture\<close>

lemma addCaptured_completed: "completed (addCaptured u f now s) = completed s"
  by (simp add: addCaptured_def Let_def split: option.split)

lemma capture_fire_completed:
  "list_all (\<lambda>images. 2 \<le> length images) (completed s) \<Longrightarrow>
   list_all (\<lambda>images. 2 \<le> length images) (completed (capture_fire e s))"
  by (cases e)
     (auto simp: confirmCapture_def handleFileUpload_def removeImage_def goToPreviousAngle_def
        goToNextAngle_def handleComplete_def completeDisabled_def addCaptured_completed
        split: option.split)

lemma capture_run_completed:
  "list_all (\<lambda>images. 2 \<le> length images) (completed s) \<Longrightarrow>
   list_all (\<lambda>images. 2 \<le> length images) (completed (capture_run evs s))"
  unfolding capture_run_def by (induction evs arbitrary: s) (simp_all add: capture_fire_completed)

text \<open>
  C10. \<open>MultiAngleCapture\<close> never calls \<open>onComplete\<close> while fewer than 2 images are
  captured: \<open>handleComplete\<close> changes nothing when the list of captured images is shorter
  than 2, and the completion button is disabled exactly then; with 2 or more images it
  calls \<open>onComplete\<close> once, with the current list of captured images. So after every
  sequence of user actions each call of \<open>onComplete\<close> made so far carried at least 2
  images.
\<close>

theorem C10_handleComplete_needs_two_images:
  "(length (capturedImages s) < 2 \<longrightarrow> handleComplete s = s) \<and>
   (2 \<le> length (capturedImages s) \<longrightarrow>
      handleComplete s = s\<lparr>completed := completed s @ [capturedImages s]\<rparr>) \<and>
   (completeDisabled s \<longleftrightarrow> length (capturedImages s) < 2) \<and>
   list_all (\<lambda>images. 2 \<le> length images) (completed (capture_run evs capture_state0))"
proof (intro conjI)
  have "list_all (\<lambda>images. 2 \<le> length images) (completed capture_state0)"
    by (simp add: capture_state0_def)
  then show "list_all (\<lambda>images. 2 \<le> length images) (completed (capture_run evs capture_state0))"
    by (rule capture_run_completed)
qed (simp_all add: handleComplete_def completeDisabled_def)

text \<open>
  With nothing captured the handler does nothing; after two uploads (front, then side) it
  passes these two images.
\<close>

theorem C10_handleComplete_needs_two_images_witness:
  "length (capturedImages capture_state0) < 2 \<and>
   handleComplete capture_state0 = capture_state0 \<and>
   2 \<le> length (capturedImages (capture_run [Upload (Some cowFile) (str ''blob:1'') 1,
          Upload (Some cowFile) (str ''blob:2'') 2] capture_state0)) \<and>
   map (map CapturedImage.id') (completed (handleComplete (capture_run
         [Upload (Some cowFile) (str ''blob:1'') 1, Upload (Some cowFile) (str ''blob:2'') 2]
         capture_state0))) = [[str ''front'', str ''side'']]"
proof -
  let ?s2 = "capture_run [Upload (Some cowFile) (str ''blob:1'') 1,
          Upload (Some cowFile) (str ''blob:2'') 2] capture_state0"
  have none: "length (capturedImages capture_state0) < 2"
    by (simp add: capture_state0_def)
  have two: "map CapturedImage.id' (capturedImages ?s2) = [str ''front'', str ''side'']"
     and log: "completed ?s2 = []"
    by (simp_all add: capture_run_def capture_state0_def handleFileUpload_def addCaptured_def
        currentAngle_def requiredAngles_def cowFile_def startsWith_def str_def Let_def)
  from two have len: "2 \<le> length (capturedImages ?s2)"
    by (metis length_map list.size(3,4) One_nat_def Suc_1 add.commute le_refl plus_1_eq_Suc)
  from C10_handleComplete_needs_two_images [of capture_state0] none
  have a: "handleComplete capture_state0 = capture_state0" by blast
  from C10_handleComplete_needs_two_images [of ?s2] len
  have "handleComplete ?s2 = ?s2\<lparr>completed := completed ?s2 @ [capturedImages ?s2]\<rparr>" by blast
  then have "map (map CapturedImage.id') (completed (handleComplete ?s2)) =
      [[str ''front'', str ''side'']]"
    using two log by simp
  with none a len show ?thesis by blast
qed

subsection \<open>LoadingAnalysis: the effect and its timers\<close>

lemma funpow_numeral_left: "(f ^^ numeral k) x = (f ^^ pred_numeral k) (f x)"
  by (simp add: numeral_eq_Suc funpow_swap1)

lemma la_insert_list_all: "list_all P (la_insert t ts) = (P t \<and> list_all P ts)"
  by (induction ts) auto

lemma la_insert_filter_out: "\<not> P t \<Longrightarrow> filter P (la_insert t ts) = filter P ts"
  by (induction ts) auto

lemma la_insert_filter_single: "P t \<Longrightarrow> filter P ts = [] \<Longrightarrow> filter P (la_insert t ts) = [t]"
  by (induction ts) (auto split: if_splits)

lemma la_insert_weight:
  fixes w :: "la_timer \<Rightarrow> nat"
  shows "sum_list (map w (la_insert t ts)) = w t + sum_list (map w ts)"
  by (induction ts) auto

lemma stepProgress_less: "0 < d \<Longrightarrow> (min (real x / real d) 1 < 1) = (x < d)"
  by (simp add: min_def)

lemma nth_update_field:
  "f (g (xs ! e)) = f (xs ! e) \<Longrightarrow> f (xs[e := g (xs ! e)] ! j) = f (xs ! j)"
  by (cases "e < length xs") (auto simp add: nth_list_update list_update_beyond)

lemma animateProgress_facts:
  "la_log (animateProgress e d st a b s) = la_log s"
  "la_clock (animateProgress e d st a b s) = la_clock s"
  "la_mounted (animateProgress e d st a b s) = la_mounted s"
  "la_onComplete (animateProgress e d st a b s) = la_onComplete s"
  "length (la_effects (animateProgress e d st a b s)) = length (la_effects s)"
  by (simp_all add: animateProgress_def Let_def setProgress_def la_setTimeout_def)

lemma animateProgress_locals:
  "onComplete (la_effects (animateProgress e d st a b s) ! j) = onComplete (la_effects s ! j)"
  "stepTimer (la_effects (animateProgress e d st a b s) ! j) = stepTimer (la_effects s ! j)"
proof -
  have u: "onComplete (xs[e := (xs ! e)\<lparr>progressTimer := v\<rparr>] ! j) = onComplete (xs ! j)"
    "onComplete (xs[e := (xs ! e)\<lparr>totalProgress := w\<rparr>] ! j) = onComplete (xs ! j)"
    "stepTimer (xs[e := (xs ! e)\<lparr>progressTimer := v\<rparr>] ! j) = stepTimer (xs ! j)"
    "stepTimer (xs[e := (xs ! e)\<lparr>totalProgress := w\<rparr>] ! j) = stepTimer (xs ! j)"
    for xs :: "la_locals list" and v w
    by (rule nth_update_field, simp)+
  show "onComplete (la_effects (animateProgress e d st a b s) ! j) = onComplete (la_effects s ! j)"
    "stepTimer (la_effects (animateProgress e d st a b s) ! j) = stepTimer (la_effects s ! j)"
    by (simp_all add: animateProgress_def Let_def setProgress_def la_setTimeout_def u)
qed

lemma animateProgress_timers:
  assumes "0 < d"
  shows "la_timers (animateProgress e d st a b s) =
     (if la_clock s < st + d
      then la_insert \<lparr>la_due = la_clock s + 50, la_id = la_nextId s,
                      la_closure = ProgressTimer e d st a b\<rparr> (la_timers s)
      else la_timers s)"
proof -
  have "(la_clock s - st < d) = (la_clock s < st + d)" using assms by arith
  then show ?thesis
    by (simp add: animateProgress_def Let_def setProgress_def la_setTimeout_def
        stepProgress_less [OF assms])
qed


lemma analysisSteps_facts:
  "length analysisSteps = 3"
  "duration (analysisSteps ! 0) = 2000"
  "duration (analysisSteps ! 1) = 3000"
  "duration (analysisSteps ! 2) = 2000"
  "duration (analysisSteps ! Suc 0) = 3000"
  by (simp_all add: analysisSteps_def)

lemma setCurrentStep_facts:
  "la_log (setCurrentStep i s) = la_log s @ [(la_clock s, StepStarted i)]"
  "la_clock (setCurrentStep i s) = la_clock s"
  "la_mounted (setCurrentStep i s) = la_mounted s"
  "la_onComplete (setCurrentStep i s) = la_onComplete s"
  "la_effects (setCurrentStep i s) = la_effects s"
  "la_timers (setCurrentStep i s) = la_timers s"
  "la_nextId (setCurrentStep i s) = la_nextId s"
  by (simp_all add: setCurrentStep_def Let_def)

lemma less_3_cases: "i < 3 \<Longrightarrow> i = 0 \<or> i = 1 \<or> i = (2::nat)"
  by arith

lemma duration_pos: "i < 3 \<Longrightarrow> 0 < duration (analysisSteps ! i)"
  by (auto dest!: less_3_cases simp add: analysisSteps_facts)

lemma runAnalysis_step:
  assumes "i < 3"
  shows "runAnalysis e i s =
     (let s1 = setCurrentStep i s;
          s2 = animateProgress e (duration (analysisSteps ! i)) (la_clock s1)
                 (totalProgress (la_effects s1 ! e)) ((real (i + 1) / 3) * 100) s1;
          s3 = la_setTimeout (StepTimer e i) (duration (analysisSteps ! i)) s2
      in s3\<lparr>la_effects := (la_effects s3)[e := (la_effects s3 ! e)\<lparr>stepTimer := Some (la_nextId s2)\<rparr>]\<rparr>)"
  using assms by (simp add: runAnalysis_def analysisSteps_facts(1) Let_def)

lemma runAnalysis_step_facts:
  assumes "i < 3"
  shows "la_log (runAnalysis e i s) = la_log s @ [(la_clock s, StepStarted i)]"
    and "la_clock (runAnalysis e i s) = la_clock s"
    and "la_mounted (runAnalysis e i s) = la_mounted s"
    and "la_onComplete (runAnalysis e i s) = la_onComplete s"
    and "length (la_effects (runAnalysis e i s)) = length (la_effects s)"
  by (simp_all add: runAnalysis_step [OF assms] Let_def setCurrentStep_facts
        animateProgress_facts la_setTimeout_def)

lemma runAnalysis_step_onComplete:
  assumes "i < 3"
  shows "onComplete (la_effects (runAnalysis e i s) ! j) = onComplete (la_effects s ! j)"
proof -
  have "onComplete (xs[e := (xs ! e)\<lparr>stepTimer := v\<rparr>] ! j) = onComplete (xs ! j)"
    for xs :: "la_locals list" and v
    by (rule nth_update_field) simp
  then show ?thesis
    by (simp add: runAnalysis_step [OF assms] Let_def setCurrentStep_facts
        animateProgress_facts animateProgress_locals la_setTimeout_def)
qed

lemma runAnalysis_step_timers:
  assumes "i < 3"
  shows "la_timers (runAnalysis e i s) =
     la_insert \<lparr>la_due = la_clock s + duration (analysisSteps ! i), la_id = la_nextId s + 1,
                la_closure = StepTimer e i\<rparr>
       (la_insert \<lparr>la_due = la_clock s + 50, la_id = la_nextId s,
                   la_closure = ProgressTimer e (duration (analysisSteps ! i)) (la_clock s)
                     (totalProgress (la_effects s ! e)) ((real (i + 1) / 3) * 100)\<rparr>
          (la_timers s))"
proof -
  note d = duration_pos [OF assms]
  have n: "la_nextId (animateProgress e (duration (analysisSteps ! i)) (la_clock s) a b
              (setCurrentStep i s)) = la_nextId s + 1" for a b
    using d by (simp add: animateProgress_def Let_def setProgress_def la_setTimeout_def
        setCurrentStep_facts stepProgress_less)
  show ?thesis
    using d
    by (simp add: runAnalysis_step [OF assms] Let_def setCurrentStep_facts
        animateProgress_facts animateProgress_timers la_setTimeout_def n)
qed

lemma runAnalysis_end_facts:
  assumes "3 \<le> i"
  shows "la_log (runAnalysis e i s) = la_log s @ [(la_clock s, LoopFinished)]"
    and "la_clock (runAnalysis e i s) = la_clock s"
    and "la_mounted (runAnalysis e i s) = la_mounted s"
    and "la_onComplete (runAnalysis e i s) = la_onComplete s"
    and "la_effects (runAnalysis e i s) = la_effects s"
    and "la_timers (runAnalysis e i s) =
           la_insert \<lparr>la_due = la_clock s + 500, la_id = la_nextId s,
                      la_closure = CompleteTimer (onComplete (la_effects s ! e))\<rparr> (la_timers s)"
  using assms
  by (simp_all add: runAnalysis_def Let_def analysisSteps_facts setProgress_def la_setTimeout_def)


lemmas la_defs = la_run_def la_mount_def la_effect_def runAnalysis_def animateProgress_def
  setProgress_def setCurrentStep_def la_setTimeout_def la_clearTimeout_def la_cleanup_def
  analysisSteps_def Let_def

lemma animateProgress_nextId:
  assumes "0 < d"
  shows "la_nextId (animateProgress e d st a b s) =
     (if la_clock s < st + d then la_nextId s + 1 else la_nextId s)"
proof -
  have "(la_clock s - st < d) = (la_clock s < st + d)" using assms by arith
  then show ?thesis
    by (simp add: animateProgress_def Let_def setProgress_def la_setTimeout_def
        stepProgress_less [OF assms])
qed

lemma animateProgress_progressTimer:
  assumes "0 < d"
  shows "progressTimer (la_effects (animateProgress e d st a b s) ! j) =
     (if la_clock s < st + d \<and> e = j \<and> j < length (la_effects s) then Some (la_nextId s)
      else progressTimer (la_effects s ! j))"
proof -
  have c: "(la_clock s - st < d) = (la_clock s < st + d)" using assms by arith
  have u: "progressTimer (xs[e := (xs ! e)\<lparr>totalProgress := w\<rparr>] ! j) = progressTimer (xs ! j)"
    for xs :: "la_locals list" and w
    by (rule nth_update_field) simp
  have v: "progressTimer (xs[e := (xs ! e)\<lparr>progressTimer := Some k\<rparr>] ! j) =
      (if e = j \<and> j < length xs then Some k else progressTimer (xs ! j))"
    for xs :: "la_locals list" and k
    by (cases "e < length xs") (auto simp add: nth_list_update list_update_beyond)
  show ?thesis
    by (simp add: animateProgress_def Let_def setProgress_def la_setTimeout_def
        stepProgress_less [OF assms] c u v)
qed

lemma runAnalysis_step_locals:
  assumes "i < 3" and "e < length (la_effects s)"
  shows "stepTimer (la_effects (runAnalysis e i s) ! e) = Some (la_nextId s + 1)"
    and "progressTimer (la_effects (runAnalysis e i s) ! e) = Some (la_nextId s)"
    and "la_nextId (runAnalysis e i s) = la_nextId s + 2"
  using assms(2) duration_pos [OF assms(1)]
  by (simp_all add: runAnalysis_step [OF assms(1)] Let_def setCurrentStep_facts
      animateProgress_facts animateProgress_nextId animateProgress_progressTimer
      la_setTimeout_def)

lemma runAnalysis_end_nextId:
  assumes "3 \<le> i"
  shows "la_nextId (runAnalysis e i s) = la_nextId s + 1"
  using assms
  by (simp add: runAnalysis_def Let_def analysisSteps_facts setProgress_def la_setTimeout_def)

lemma la_insert_set: "set (la_insert t ts) = insert t (set ts)"
  by (induction ts) auto

lemma la_insert_distinct:
  "distinct (map la_id (la_insert t ts)) =
     (la_id t \<notin> la_id ` set ts \<and> distinct (map la_id ts))"
  by (induction ts) (auto simp add: la_insert_set)

lemma la_sound_clock: "la_sound e pv sv c t \<Longrightarrow> c \<le> c' \<Longrightarrow> la_sound e pv sv c' t"
  by (auto simp add: la_sound_def split: la_closure.splits)

lemma la_sound_other: "la_sound e pv sv c t \<Longrightarrow> pv \<noteq> Some (la_id t) \<Longrightarrow> la_sound e pv' sv c t"
  by (auto simp add: la_sound_def split: la_closure.splits)

lemma la_expired_sound: "la_expired c t \<Longrightarrow> la_sound e pv sv c t"
  by (cases "la_closure t") (auto simp add: la_sound_def la_expired_def)

lemma la_expired_clock: "la_expired c t \<Longrightarrow> c \<le> c' \<Longrightarrow> la_expired c' t"
  by (simp add: la_expired_def)

lemma list_all_mono: "list_all P xs \<Longrightarrow> (\<And>x. x \<in> set xs \<Longrightarrow> P x \<Longrightarrow> Q x) \<Longrightarrow> list_all Q xs"
  by (induction xs) auto

lemma list_all_clock_mono:
  fixes c :: nat
  shows "list_all (\<lambda>ob. fst ob \<le> c) obs \<Longrightarrow> c \<le> c' \<Longrightarrow> list_all (\<lambda>ob. fst ob \<le> c') obs"
  by (induction obs) auto

lemma schedule_extend:
  fixes c :: nat
  assumes "list_all2 (\<le>) (map ((+) t0) (take n xs)) ys" and "n < length xs" and "t0 + xs ! n \<le> c"
  shows "list_all2 (\<le>) (map ((+) t0) (take (Suc n) xs)) (ys @ [c])"
  using assms by (simp add: take_Suc_conv_app_nth list_all2_appendI)

lemma la_inv_start:
  assumes m: "la_mounted s0" and oc: "la_onComplete s0 = cb" and left: "la_leftover s0"
  shows "la_inv cb (length (la_effects s0)) (la_log s0) (la_clock s0)
           [(la_clock s0, StepStarted 0)] (la_effect s0)"
proof -
  define e where "e = length (la_effects s0)"
  define c where "c = la_clock s0"
  define s1 where "s1 = s0\<lparr>la_effects := la_effects s0 @
      [\<lparr>stepTimer = None, progressTimer = None, totalProgress = 0, onComplete = la_onComplete s0\<rparr>]\<rparr>"
  define prog where "prog = \<lparr>la_due = c + 50, la_id = la_nextId s0,
      la_closure = ProgressTimer e 2000 c (totalProgress (la_effects s1 ! e)) ((real (0 + 1) / 3) * 100)\<rparr>"
  define step where "step = \<lparr>la_due = c + 2000, la_id = la_nextId s0 + 1, la_closure = StepTimer e 0\<rparr>"
  have j: "(0::nat) < 3" by simp
  have s1: "la_log s1 = la_log s0" "la_clock s1 = c" "la_timers s1 = la_timers s0"
    "la_mounted s1 = la_mounted s0" "la_onComplete s1 = la_onComplete s0"
    "la_nextId s1 = la_nextId s0" "length (la_effects s1) = e + 1"
    "onComplete (la_effects s1 ! e) = cb"
    by (simp_all add: s1_def c_def e_def oc)
  have e1: "e < length (la_effects s1)" by (simp add: s1)
  have eff: "la_effect s0 = runAnalysis e 0 s1"
    by (simp add: la_effect_def s1_def e_def)
  from left have old: "list_all (la_expired c) (la_timers s0)"
    and dist: "distinct (map la_id (la_timers s0))"
    and ids: "list_all (\<lambda>t. la_id t < la_nextId s0) (la_timers s0)"
    by (simp_all add: la_leftover_def c_def)
  have timers: "la_timers (runAnalysis e 0 s1) = la_insert step (la_insert prog (la_timers s0))"
    by (simp add: runAnalysis_step_timers [OF j] s1 step_def prog_def analysisSteps_facts)
  have noprog: "filter (\<lambda>t. \<not> la_isProgress (la_closure t)) (la_timers s0) = []"
    using old by (induction "la_timers s0") (auto simp add: la_expired_def list_all_iff filter_empty_conv)
  have main: "la_main (runAnalysis e 0 s1) = [step]"
    by (simp add: la_main_def timers la_insert_filter_single la_insert_filter_out noprog
        step_def prog_def)
  have sound: "list_all (la_sound e (Some (la_nextId s0)) (Some (la_nextId s0 + 1)) c)
      (la_timers (runAnalysis e 0 s1))"
  proof -
    have "list_all (la_sound e (Some (la_nextId s0)) (Some (la_nextId s0 + 1)) c) (la_timers s0)"
      using old by (rule list_all_mono) (rule la_expired_sound)
    moreover have "la_sound e (Some (la_nextId s0)) (Some (la_nextId s0 + 1)) c prog"
      "la_sound e (Some (la_nextId s0)) (Some (la_nextId s0 + 1)) c step"
      by (simp_all add: la_sound_def prog_def step_def)
    ultimately show ?thesis by (simp add: timers la_insert_list_all)
  qed
  have expiry: "list_all (\<lambda>t. la_expiry (la_closure t) \<le> c + 2000) (la_timers (runAnalysis e 0 s1))"
  proof -
    have "list_all (\<lambda>t. la_expiry (la_closure t) \<le> c + 2000) (la_timers s0)"
      using old by (rule list_all_mono) (simp add: la_expired_def)
    then show ?thesis by (simp add: timers la_insert_list_all prog_def step_def)
  qed
  have fresh: "la_nextId s0 \<notin> la_id ` set (la_timers s0)"
    "Suc (la_nextId s0) \<notin> la_id ` set (la_timers s0)"
    using ids by (auto simp add: list_all_iff)
  have dist': "distinct (map la_id (la_timers (runAnalysis e 0 s1)))"
    using dist fresh
    by (simp add: timers la_insert_distinct la_insert_set step_def prog_def)
  have ids': "list_all (\<lambda>t. la_id t < la_nextId s0 + 2) (la_timers (runAnalysis e 0 s1))"
  proof -
    have "list_all (\<lambda>t. la_id t < la_nextId s0 + 2) (la_timers s0)"
      using ids by (rule list_all_mono) simp
    then show ?thesis by (simp add: timers la_insert_list_all prog_def step_def)
  qed
  show ?thesis
    unfolding eff la_inv_def e_def [symmetric] c_def [symmetric]
    using m oc sound expiry dist' ids'
    by (simp add: runAnalysis_step_facts [OF j] runAnalysis_step_onComplete [OF j]
        runAnalysis_step_locals [OF j e1] s1 main la_sequence_def la_schedule_def
        la_expected_def step_def)
qed


lemma la_inv_TimerFires:
  assumes inv: "la_inv cb e base t0 obs s"
  shows "\<exists>obs'. la_inv cb e base t0 obs' (la_fire TimerFires s)"
proof (cases "la_timers s")
  case Nil
  with inv have "la_inv cb e base t0 obs (la_fire TimerFires s)" by simp
  then show ?thesis by (rule exI)
next
  case (Cons t ts)
  define c where "c = max (la_clock s) (la_due t)"
  define s1 where "s1 = s\<lparr>la_timers := ts, la_clock := c\<rparr>"
  define rest where "rest = filter (\<lambda>t. \<not> la_isProgress (la_closure t)) ts"
  define pv where "pv = progressTimer (la_effects s ! e)"
  define sv where "sv = stepTimer (la_effects s ! e)"
  have s1: "la_log s1 = la_log s" "la_clock s1 = c" "la_timers s1 = ts"
    "la_effects s1 = la_effects s" "la_mounted s1 = la_mounted s"
    "la_onComplete s1 = la_onComplete s" "la_nextId s1 = la_nextId s"
    by (simp_all add: s1_def)
  have c: "la_clock s \<le> c" "la_due t \<le> c" by (simp_all add: c_def)
  from inv have m: "la_mounted s" and oc: "la_onComplete s = cb"
    and len: "length (la_effects s) = e + 1"
    and eoc: "onComplete (la_effects s ! e) = cb"
    and log: "la_log s = base @ obs"
    and times: "list_all (\<lambda>ob. fst ob \<le> la_clock s) obs"
    and n: "1 \<le> length obs" "length obs \<le> 5"
    and seq: "map snd obs = take (length obs) (la_sequence cb)"
    and sched: "list_all2 (\<le>) (map ((+) t0) (take (length obs) la_schedule)) (map fst obs)"
    and main: "map la_closure (la_main s) = la_expected cb e (length obs)"
    and due: "list_all (\<lambda>u. t0 + la_schedule ! length obs \<le> la_due u) (la_main s)"
    and sound_t: "la_sound e pv sv (la_clock s) t"
    and sound_ts: "list_all (la_sound e pv sv (la_clock s)) ts"
    and expiry_t: "list_all (\<lambda>u. la_expiry (la_closure t) \<le> la_due u) (la_main s)"
    and expiry_ts: "list_all (\<lambda>t. list_all (\<lambda>u. la_expiry (la_closure t) \<le> la_due u) (la_main s)) ts"
    and dist: "la_id t \<notin> la_id ` set ts" "distinct (map la_id ts)"
    and id_t: "la_id t < la_nextId s"
    and ids: "list_all (\<lambda>t. la_id t < la_nextId s) ts"
    by (simp_all add: la_inv_def Cons pv_def sv_def)
  have e1: "e < length (la_effects s1)" by (simp add: s1 len)
  have times1: "list_all (\<lambda>ob. fst ob \<le> c) obs"
    using times c(1) by (rule list_all_clock_mono)
  have sound1: "list_all (la_sound e pv sv c) ts"
    using sound_ts by (rule list_all_mono) (rule la_sound_clock [OF _ c(1)])
  have fresh: "la_nextId s \<notin> la_id ` set ts" "Suc (la_nextId s) \<notin> la_id ` set ts"
    using ids by (auto simp add: list_all_iff)
  have ids1: "list_all (\<lambda>t. la_id t < la_nextId s + k) ts" for k
    using ids by (rule list_all_mono) simp
  show ?thesis
  proof (cases "la_closure t")
    case (ProgressTimer e' d st a b)
    with sound_t have d: "0 < d" by (simp add: la_sound_def)
    have fire: "la_fire TimerFires s = animateProgress e' d st a b s1"
      using Cons ProgressTimer by (simp add: s1_def c_def)
    have main_s: "la_main s = rest"
      by (simp add: la_main_def Cons ProgressTimer rest_def)
    have main': "la_main (animateProgress e' d st a b s1) = rest"
      using d by (simp add: la_main_def animateProgress_timers s1 la_insert_filter_out rest_def)
    have expiry1: "list_all (\<lambda>t. list_all (\<lambda>u. la_expiry (la_closure t) \<le> la_due u) rest) ts"
      using expiry_ts by (simp add: main_s)
    have expiry1_t: "list_all (\<lambda>u. st + d \<le> la_due u) rest"
      using expiry_t by (simp add: main_s ProgressTimer)
    have "la_inv cb e base t0 obs (animateProgress e' d st a b s1)"
    proof (cases "c < st + d")
      case True
      with c(1) have "\<not> st + d \<le> la_clock s" by simp
      with sound_t have cur: "e' = e" "pv = Some (la_id t)"
        by (simp_all add: la_sound_def ProgressTimer)
      have pv': "progressTimer (la_effects (animateProgress e' d st a b s1) ! e) = Some (la_nextId s)"
        using True d e1 cur(1) by (simp add: animateProgress_progressTimer s1)
      have other: "pv \<noteq> Some (la_id u)" if "u \<in> set ts" for u
        using that dist(1) cur(2) by auto
      have sound': "list_all (la_sound e (Some (la_nextId s)) sv c) ts"
        using sound1 by (rule list_all_mono) (rule la_sound_other, assumption, rule other)
      have new: "la_sound e (Some (la_nextId s)) sv c
          \<lparr>la_due = c + 50, la_id = la_nextId s, la_closure = ProgressTimer e' d st a b\<rparr>"
        using d cur(1) by (simp add: la_sound_def)
      show ?thesis
        unfolding la_inv_def
        using m oc len eoc log times1 n seq sched main due main_s main' True d
          sound' new expiry1 expiry1_t dist(2) fresh(1) ids1 [of 1] pv'
        by (simp add: animateProgress_facts animateProgress_locals animateProgress_timers
            animateProgress_nextId s1 la_insert_list_all la_insert_distinct sv_def)
    next
      case False
      have pv': "progressTimer (la_effects (animateProgress e' d st a b s1) ! e) = pv"
        using False d by (simp add: animateProgress_progressTimer s1 pv_def)
      show ?thesis
        unfolding la_inv_def
        using m oc len eoc log times1 n seq sched main due main_s main' False d
          sound1 expiry1 dist(2) ids pv'
        by (simp add: animateProgress_facts animateProgress_locals animateProgress_timers
            animateProgress_nextId s1 sv_def)
    qed
    then show ?thesis unfolding fire by (rule exI)
  next
    case (StepTimer e' i)
    with sound_t have e': "e' = e" and i: "i < 3"
      by (simp_all add: la_sound_def)
    have fire: "la_fire TimerFires s = runAnalysis e (i + 1) s1"
      using Cons StepTimer e' by (simp add: s1_def c_def)
    have main_s: "la_main s = t # rest"
      by (simp add: la_main_def Cons StepTimer rest_def)
    from main have "la_expected cb e (length obs) = StepTimer e i # map la_closure rest"
      by (simp add: main_s StepTimer e')
    with i have ni: "length obs = i + 1" and rest: "rest = []"
      by (auto simp add: la_expected_def split: if_splits)
    from due have due_t: "t0 + la_schedule ! (i + 1) \<le> la_due t"
      by (simp add: main_s ni)
    have sched': "list_all2 (\<le>) (map ((+) t0) (take (Suc (length obs)) la_schedule)) (map fst obs @ [c])"
      using sched due_t c(2) i by (intro schedule_extend) (simp_all add: ni la_schedule_def)
    have all_progress: "la_isProgress (la_closure u)" if "u \<in> set ts" for u
      using rest that by (auto simp add: rest_def filter_empty_conv)
    have expired: "list_all (la_expired c) ts"
    proof -
      have "la_expired c u" if u: "u \<in> set ts" for u
      proof -
        from expiry_ts u have "la_expiry (la_closure u) \<le> la_due t"
          by (simp add: main_s list_all_iff)
        moreover from sound_ts u have "la_ok (la_closure u)"
          by (simp add: list_all_iff la_sound_def)
        ultimately show ?thesis
          using all_progress [OF u] c(2) by (simp add: la_expired_def)
      qed
      then show ?thesis by (simp add: list_all_iff)
    qed
    have sound2: "list_all (la_sound e pv' sv' c) ts" for pv' sv'
      using expired by (rule list_all_mono) (rule la_expired_sound)
    have expiry2: "list_all (\<lambda>t. la_expiry (la_closure t) \<le> c + k) ts" for k
      using expired by (rule list_all_mono) (simp add: la_expired_def)
    from i consider "i = 0" | "i = 1" | "i = 2" by arith
    then show ?thesis
    proof cases
      case 1
      have j: "Suc 0 < 3" by simp
      have "i + 1 = Suc 0" using 1 by simp
      with fire have fire1: "la_fire TimerFires s = runAnalysis e (Suc 0) s1" by (simp only:)
      have c0: "t0 + 2000 \<le> c" using due_t c(2) 1 by (simp add: la_schedule_def)
      have main': "la_main (runAnalysis e (Suc 0) s1) =
          [\<lparr>la_due = c + 3000, la_id = la_nextId s + 1, la_closure = StepTimer e 1\<rparr>]"
        using rest
        by (simp add: la_main_def runAnalysis_step_timers [OF j] s1 la_insert_filter_out
            la_insert_filter_single rest_def analysisSteps_facts)
      have "la_inv cb e base t0 (obs @ [(c, StepStarted 1)]) (runAnalysis e (Suc 0) s1)"
        unfolding la_inv_def
        using m oc len eoc log times1 seq sched' ni 1 c0 main' sound2 expiry2 [of 3000]
          dist(2) fresh ids1 [of 2]
        by (simp add: runAnalysis_step_facts [OF j] runAnalysis_step_onComplete [OF j]
            runAnalysis_step_locals [OF j e1] runAnalysis_step_timers [OF j] s1
            la_sequence_def la_schedule_def la_expected_def la_insert_list_all
            la_insert_distinct la_insert_set la_sound_def analysisSteps_facts)
      then show ?thesis unfolding fire1 by (rule exI)
    next
      case 2
      have j: "2 < (3::nat)" by simp
      have "i + 1 = 2" using 2 by simp
      with fire have fire1: "la_fire TimerFires s = runAnalysis e 2 s1" by (simp only:)
      have c0: "t0 + 5000 \<le> c" using due_t c(2) 2 by (simp add: la_schedule_def)
      have main': "la_main (runAnalysis e 2 s1) =
          [\<lparr>la_due = c + 2000, la_id = la_nextId s + 1, la_closure = StepTimer e 2\<rparr>]"
        using rest
        by (simp add: la_main_def runAnalysis_step_timers [OF j] s1 la_insert_filter_out
            la_insert_filter_single rest_def analysisSteps_facts)
      have "la_inv cb e base t0 (obs @ [(c, StepStarted 2)]) (runAnalysis e 2 s1)"
        unfolding la_inv_def
        using m oc len eoc log times1 seq sched' ni 2 c0 main' sound2 expiry2 [of 2000]
          dist(2) fresh ids1 [of 2]
        by (simp add: runAnalysis_step_facts [OF j] runAnalysis_step_onComplete [OF j]
            runAnalysis_step_locals [OF j e1] runAnalysis_step_timers [OF j] s1
            la_sequence_def la_schedule_def la_expected_def la_insert_list_all
            la_insert_distinct la_insert_set la_sound_def analysisSteps_facts)
      then show ?thesis unfolding fire1 by (rule exI)
    next
      case 3
      have j: "3 \<le> (3::nat)" by simp
      have "i + 1 = 3" using 3 by simp
      with fire have fire1: "la_fire TimerFires s = runAnalysis e 3 s1" by (simp only:)
      have c0: "t0 + 7000 \<le> c" using due_t c(2) 3 by (simp add: la_schedule_def)
      have main': "la_main (runAnalysis e 3 s1) =
          [\<lparr>la_due = c + 500, la_id = la_nextId s, la_closure = CompleteTimer cb\<rparr>]"
        using rest eoc
        by (simp add: la_main_def runAnalysis_end_facts [OF j] s1 la_insert_filter_single rest_def)
      have "la_inv cb e base t0 (obs @ [(c, LoopFinished)]) (runAnalysis e 3 s1)"
        unfolding la_inv_def
        using m oc len eoc log times1 seq sched' ni 3 c0 main' sound2 expiry2 [of 500]
          dist(2) fresh ids1 [of 1]
        by (simp add: runAnalysis_end_facts [OF j] runAnalysis_end_nextId [OF j] s1
            la_sequence_def la_schedule_def la_expected_def la_insert_list_all
            la_insert_distinct la_insert_set la_sound_def)
      then show ?thesis unfolding fire1 by (rule exI)
    qed
  next
    case (CompleteTimer cb')
    have fire: "la_fire TimerFires s = s1\<lparr>la_log := la_log s @ [(c, OnCompleteCalled cb')]\<rparr>"
      using Cons CompleteTimer by (simp add: s1_def c_def)
    have main_s: "la_main s = t # rest"
      by (simp add: la_main_def Cons CompleteTimer rest_def)
    from main have "la_expected cb e (length obs) = CompleteTimer cb' # map la_closure rest"
      by (simp add: main_s CompleteTimer)
    then have ni: "length obs = 4" and rest: "rest = []" and cb': "cb' = cb"
      by (auto simp add: la_expected_def split: if_splits)
    from due have due_t: "t0 + la_schedule ! 4 \<le> la_due t"
      by (simp add: main_s ni)
    have c0: "t0 + 7500 \<le> c" using due_t c(2) by (simp add: la_schedule_def)
    have sched': "list_all2 (\<le>) (map ((+) t0) (take (Suc (length obs)) la_schedule)) (map fst obs @ [c])"
      using sched due_t c(2) by (intro schedule_extend) (simp_all add: ni la_schedule_def)
    have main': "la_main (s1\<lparr>la_log := la_log s @ [(c, OnCompleteCalled cb')]\<rparr>) = []"
      using rest by (simp add: la_main_def s1_def rest_def)
    have "la_inv cb e base t0 (obs @ [(c, OnCompleteCalled cb)])
        (s1\<lparr>la_log := la_log s @ [(c, OnCompleteCalled cb')]\<rparr>)"
      unfolding la_inv_def
      using m oc len eoc log times1 seq sched' ni c0 main' cb' sound1 dist(2) ids
      by (simp add: s1_def la_sequence_def la_schedule_def la_expected_def pv_def sv_def
          list_all_iff)
    then show ?thesis unfolding fire by (rule exI)
  qed
qed

lemma la_inv_fire:
  assumes "la_inv cb e base t0 obs s" and "la_quiet cb ev"
  shows "\<exists>obs'. la_inv cb e base t0 obs' (la_fire ev s)"
proof (cases ev)
  case TimerFires
  show ?thesis unfolding TimerFires by (rule la_inv_TimerFires [OF assms(1)])
next
  case (TimePasses d)
  have "list_all (\<lambda>ob. fst ob \<le> la_clock s + d) obs"
    using assms(1) by (auto simp add: la_inv_def intro: list_all_clock_mono)
  moreover have "list_all (la_sound e (progressTimer (la_effects s ! e))
      (stepTimer (la_effects s ! e)) (la_clock s + d)) (la_timers s)"
    using assms(1) by (auto simp add: la_inv_def list_all_iff intro: la_sound_clock)
  ultimately have "la_inv cb e base t0 obs (la_fire ev s)"
    using assms(1) by (simp add: TimePasses la_inv_def la_main_def)
  then show ?thesis by (rule exI)
next
  case (ParentRenders c)
  with assms have "la_inv cb e base t0 obs (la_fire ev s)" by (simp add: la_inv_def)
  then show ?thesis by (rule exI)
next
  case Unmounts
  with assms(2) show ?thesis by simp
qed

lemma la_run_append: "la_run (evs @ evs') s = la_run evs' (la_run evs s)"
  by (simp add: la_run_def)

lemma la_run_Cons: "la_run (ev # evs) s = la_run evs (la_fire ev s)"
  by (simp add: la_run_def)

lemma la_inv_run:
  assumes "list_all (la_quiet cb) evs" and "la_inv cb e base t0 obs s"
  shows "\<exists>obs'. la_inv cb e base t0 obs' (la_run evs s)"
  using assms
proof (induction evs arbitrary: obs s)
  case Nil
  then have "la_inv cb e base t0 obs (la_run [] s)" by (simp add: la_run_def)
  then show ?case by (rule exI)
next
  case (Cons ev evs)
  from Cons.prems have "la_quiet cb ev" and quiet: "list_all (la_quiet cb) evs" by simp_all
  with Cons.prems(2) obtain obs1 where "la_inv cb e base t0 obs1 (la_fire ev s)"
    using la_inv_fire by blast
  with quiet show ?case
    unfolding la_run_Cons by (rule Cons.IH)
qed

lemma la_run_idle: "la_timers s = [] \<Longrightarrow> la_run (replicate n TimerFires) s = s"
  by (induction n) (simp_all add: la_run_def)

lemma la_potential_decreases:
  assumes inv: "la_inv cb e base t0 obs s" and pending: "la_timers s \<noteq> []"
  shows "la_potential (la_fire TimerFires s) < la_potential s"
proof -
  from pending obtain t ts where Cons: "la_timers s = t # ts" by (cases "la_timers s") auto
  define c where "c = max (la_clock s) (la_due t)"
  define s1 where "s1 = s\<lparr>la_timers := ts, la_clock := c\<rparr>"
  define rest where "rest = sum_list (map la_weight ts)"
  have s1: "la_clock s1 = c" "la_timers s1 = ts" "la_effects s1 = la_effects s"
    by (simp_all add: s1_def)
  have c: "la_due t \<le> c" by (simp add: c_def)
  from inv have ok: "la_ok (la_closure t)" by (simp add: la_inv_def Cons la_sound_def)
  have before: "la_potential s = la_weight t + rest"
    by (simp add: la_potential_def Cons rest_def)
  show ?thesis
  proof (cases "la_closure t")
    case (ProgressTimer e' d st a b)
    with ok have d: "0 < d" by simp
    have fire: "la_fire TimerFires s = animateProgress e' d st a b s1"
      using Cons ProgressTimer by (simp add: s1_def c_def)
    have w: "la_weight t = 1 + (st + d - la_due t)"
      by (simp add: la_weight_def ProgressTimer)
    show ?thesis
      unfolding fire before w
      using c d
      by (simp add: la_potential_def animateProgress_timers s1 la_insert_weight rest_def
          la_weight_def ProgressTimer; arith)
  next
    case (StepTimer e' i)
    with ok have i: "i < 3" by simp
    have fire: "la_fire TimerFires s = runAnalysis e' (i + 1) s1"
      using Cons StepTimer by (simp add: s1_def c_def)
    have w: "la_weight t = 2 + 3000 * (2 - i)"
      by (simp add: la_weight_def StepTimer)
    from i consider "i = 0" | "i = 1" | "i = 2" by arith
    then show ?thesis
    proof cases
      case 1
      have j: "Suc 0 < 3" by simp
      have "i + 1 = Suc 0" using 1 by simp
      with fire have fire1: "la_fire TimerFires s = runAnalysis e' (Suc 0) s1" by (simp only:)
      show ?thesis
        unfolding fire1 before w
        using 1
        by (simp add: la_potential_def runAnalysis_step_timers [OF j] s1 la_insert_weight
            rest_def la_weight_def analysisSteps_facts)
    next
      case 2
      have j: "2 < (3::nat)" by simp
      have "i + 1 = 2" using 2 by simp
      with fire have fire1: "la_fire TimerFires s = runAnalysis e' 2 s1" by (simp only:)
      show ?thesis
        unfolding fire1 before w
        using 2
        by (simp add: la_potential_def runAnalysis_step_timers [OF j] s1 la_insert_weight
            rest_def la_weight_def analysisSteps_facts)
    next
      case 3
      have j: "3 \<le> (3::nat)" by simp
      have "i + 1 = 3" using 3 by simp
      with fire have fire1: "la_fire TimerFires s = runAnalysis e' 3 s1" by (simp only:)
      show ?thesis
        unfolding fire1 before w
        using 3
        by (simp add: la_potential_def runAnalysis_end_facts [OF j] s1 la_insert_weight
            rest_def la_weight_def)
    qed
  next
    case (CompleteTimer cb')
    have fire: "la_fire TimerFires s = s1\<lparr>la_log := la_log s @ [(c, OnCompleteCalled cb')]\<rparr>"
      using Cons CompleteTimer by (simp add: s1_def c_def)
    show ?thesis
      unfolding fire before
      by (simp add: la_potential_def s1_def rest_def la_weight_def CompleteTimer)
  qed
qed

lemma la_quiesces:
  assumes "la_inv cb e base t0 obs s"
  shows "\<exists>n. la_timers (la_run (replicate n TimerFires) s) = []"
  using assms
proof (induction "la_potential s" arbitrary: obs s rule: less_induct)
  case less
  show ?case
  proof (cases "la_timers s = []")
    case True
    then have "la_timers (la_run (replicate 0 TimerFires) s) = []"
      by (simp add: la_run_def)
    then show ?thesis by (rule exI)
  next
    case False
    have "la_potential (la_fire TimerFires s) < la_potential s"
      using less.prems False by (rule la_potential_decreases)
    moreover obtain obs' where "la_inv cb e base t0 obs' (la_fire TimerFires s)"
      using la_inv_TimerFires [OF less.prems] by blast
    ultimately obtain n where "la_timers (la_run (replicate n TimerFires) (la_fire TimerFires s)) = []"
      using less.hyps by blast
    then have "la_timers (la_run (replicate (Suc n) TimerFires) s) = []"
      by (simp add: la_run_Cons)
    then show ?thesis by (rule exI)
  qed
qed

lemma la_quiesces_for_good:
  assumes "la_inv cb e base t0 obs s"
  shows "\<exists>n. \<forall>m\<ge>n. la_timers (la_run (replicate m TimerFires) s) = []"
proof -
  from la_quiesces [OF assms] obtain n
    where n: "la_timers (la_run (replicate n TimerFires) s) = []" by blast
  have "la_timers (la_run (replicate m TimerFires) s) = []" if "n \<le> m" for m
  proof -
    from that have "replicate m TimerFires = replicate n TimerFires @ replicate (m - n) TimerFires"
      by (simp add: replicate_add [symmetric])
    then show ?thesis
      by (simp add: la_run_append la_run_idle [OF n] n)
  qed
  then show ?thesis by blast
qed

lemma la_called_append: "la_called (xs @ ys) = la_called xs @ la_called ys"
  by (induction xs rule: la_called.induct) simp_all

lemma la_called_sequence:
  "OnCompleteCalled cb \<in> set (map snd obs) \<Longrightarrow> la_called obs \<noteq> []"
  by (induction obs rule: la_called.induct) auto

lemma la_inv_sequence:
  "la_inv cb e base t0 obs s \<Longrightarrow> prefix (map snd obs) (la_sequence cb)"
  by (metis la_inv_def take_is_prefix)

lemma la_inv_finished:
  assumes "la_inv cb e base t0 obs s" and "la_timers s = []"
  shows "map snd obs = la_sequence cb"
proof -
  from assms have "la_expected cb e (length obs) = []"
    by (simp add: la_inv_def la_main_def)
  moreover from assms(1) have "1 \<le> length obs" "length obs \<le> 5"
    by (simp_all add: la_inv_def)
  ultimately have "length obs = 5"
    by (auto simp add: la_expected_def split: if_splits)
  with assms(1) show ?thesis
    by (simp add: la_inv_def la_sequence_def)
qed

lemma la_inv_running:
  assumes "la_inv cb e base t0 obs s" and "LoopFinished \<notin> set (map snd obs)"
  shows "length obs \<le> 3" and "la_called obs = []"
proof -
  from assms(1) have seq: "map snd obs = take (length obs) (la_sequence cb)"
    and n: "1 \<le> length obs" "length obs \<le> 5"
    by (simp_all add: la_inv_def)
  from n consider "length obs = 1" | "length obs = 2" | "length obs = 3"
    | "length obs = 4" | "length obs = 5" by arith
  then have "length obs \<le> 3 \<and> la_called obs = []"
  proof cases
    case 1
    with seq show ?thesis by (auto simp add: la_sequence_def map_eq_Cons_conv)
  next
    case 2
    with seq show ?thesis by (auto simp add: la_sequence_def map_eq_Cons_conv)
  next
    case 3
    with seq show ?thesis by (auto simp add: la_sequence_def map_eq_Cons_conv)
  next
    case 4
    with seq assms(2) show ?thesis by (simp add: la_sequence_def)
  next
    case 5
    with seq assms(2) show ?thesis by (simp add: la_sequence_def)
  qed
  then show "length obs \<le> 3" and "la_called obs = []" by simp_all
qed

lemma la_inv_called:
  assumes inv: "la_inv cb e base t0 obs s"
  shows "la_called obs = [] \<or>
         (\<exists>t. t0 + 7500 \<le> t \<and> t \<le> la_clock s \<and> la_called obs = [(t, cb)])"
proof (cases "LoopFinished \<in> set (map snd obs) \<and> length obs = 5")
  case False
  from inv have seq: "map snd obs = take (length obs) (la_sequence cb)"
    and n: "1 \<le> length obs" "length obs \<le> 5"
    by (simp_all add: la_inv_def)
  from n consider "length obs = 1" | "length obs = 2" | "length obs = 3"
    | "length obs = 4" | "length obs = 5" by arith
  then have "la_called obs = []"
  proof cases
    case 1
    with seq show ?thesis by (auto simp add: la_sequence_def map_eq_Cons_conv)
  next
    case 2
    with seq show ?thesis by (auto simp add: la_sequence_def map_eq_Cons_conv)
  next
    case 3
    with seq show ?thesis by (auto simp add: la_sequence_def map_eq_Cons_conv)
  next
    case 4
    with seq show ?thesis by (auto simp add: la_sequence_def map_eq_Cons_conv)
  next
    case 5
    with seq False show ?thesis by (simp add: la_sequence_def)
  qed
  then show ?thesis by simp
next
  case True
  from inv have seq: "map snd obs = take (length obs) (la_sequence cb)"
    and sched: "list_all2 (\<le>) (map ((+) t0) (take (length obs) la_schedule)) (map fst obs)"
    and times: "list_all (\<lambda>ob. fst ob \<le> la_clock s) obs"
    by (simp_all add: la_inv_def)
  from seq True obtain t1 t2 t3 t4 t5 where obs: "obs =
      [(t1, StepStarted 0), (t2, StepStarted 1), (t3, StepStarted 2), (t4, LoopFinished),
       (t5, OnCompleteCalled cb)]"
    by (auto simp add: la_sequence_def map_eq_Cons_conv)
  from sched times have "t0 + 7500 \<le> t5" "t5 \<le> la_clock s"
    by (simp_all add: obs la_schedule_def)
  then show ?thesis by (simp add: obs)
qed

lemma la_finishes:
  assumes "la_inv cb e base t0 obs s"
  shows "\<exists>n. \<forall>m\<ge>n. \<exists>t. t0 + 7500 \<le> t \<and>
           la_called (la_log (la_run (replicate m TimerFires) s)) = la_called base @ [(t, cb)]"
proof -
  from la_quiesces_for_good [OF assms] obtain n
    where n: "\<forall>m\<ge>n. la_timers (la_run (replicate m TimerFires) s) = []" by blast
  have "\<exists>t. t0 + 7500 \<le> t \<and>
      la_called (la_log (la_run (replicate m TimerFires) s)) = la_called base @ [(t, cb)]"
    if "n \<le> m" for m
  proof -
    have quiet: "list_all (la_quiet cb) (replicate m TimerFires)"
      by (induction m) simp_all
    from la_inv_run [OF quiet assms] obtain obs'
      where inv: "la_inv cb e base t0 obs' (la_run (replicate m TimerFires) s)" by blast
    from n that have "la_timers (la_run (replicate m TimerFires) s) = []" by blast
    with inv have "map snd obs' = la_sequence cb"
      by (rule la_inv_finished)
    then have "la_called obs' \<noteq> []"
      by (intro la_called_sequence) (simp add: la_sequence_def)
    with la_inv_called [OF inv] obtain t where "t0 + 7500 \<le> t" "la_called obs' = [(t, cb)]"
      by blast
    moreover from inv have "la_log (la_run (replicate m TimerFires) s) = base @ obs'"
      by (simp add: la_inv_def)
    ultimately show ?thesis by (simp add: la_called_append)
  qed
  then show ?thesis by blast
qed

lemma la_clearTimeout_facts:
  "la_timers (la_clearTimeout k s) = filter (\<lambda>t. Some (la_id t) \<noteq> k) (la_timers s)"
  "la_log (la_clearTimeout k s) = la_log s"
  "la_clock (la_clearTimeout k s) = la_clock s"
  "la_mounted (la_clearTimeout k s) = la_mounted s"
  "la_onComplete (la_clearTimeout k s) = la_onComplete s"
  "la_effects (la_clearTimeout k s) = la_effects s"
  "la_nextId (la_clearTimeout k s) = la_nextId s"
  by (cases k; simp add: la_clearTimeout_def)+

lemma la_cleanup_facts:
  "la_log (la_cleanup s) = la_log s"
  "la_clock (la_cleanup s) = la_clock s"
  "la_mounted (la_cleanup s) = la_mounted s"
  "la_onComplete (la_cleanup s) = la_onComplete s"
  "la_effects (la_cleanup s) = la_effects s"
  "la_nextId (la_cleanup s) = la_nextId s"
  by (simp_all add: la_cleanup_def la_clearTimeout_facts split: list.split)

lemma la_cleanup_timers:
  assumes "length (la_effects s) = e + 1"
  shows "la_timers (la_cleanup s) =
     filter (\<lambda>t. Some (la_id t) \<noteq> progressTimer (la_effects s ! e))
       (filter (\<lambda>t. Some (la_id t) \<noteq> stepTimer (la_effects s ! e)) (la_timers s))"
proof -
  from assms obtain xs v where xs: "la_effects s = xs @ [v]"
    by (cases "la_effects s" rule: rev_cases) auto
  with assms have "length xs = e" by simp
  then have v: "la_effects s ! e = v" by (auto simp add: xs nth_append)
  have "la_cleanup s = la_clearTimeout (progressTimer v) (la_clearTimeout (stepTimer v) s)"
    by (simp add: la_cleanup_def xs)
  then show ?thesis
    by (simp add: la_clearTimeout_facts v)
qed

lemma la_clearTimeout_onComplete:
  "la_clearTimeout k (s\<lparr>la_onComplete := cb\<rparr>) = (la_clearTimeout k s)\<lparr>la_onComplete := cb\<rparr>"
  by (cases k) (simp_all add: la_clearTimeout_def)

lemma la_cleanup_onComplete:
  "la_cleanup (s\<lparr>la_onComplete := cb\<rparr>) = (la_cleanup s)\<lparr>la_onComplete := cb\<rparr>"
  by (cases "rev (la_effects s)") (simp_all add: la_cleanup_def la_clearTimeout_onComplete)

lemma la_inv_cleanup:
  assumes inv: "la_inv cb e base t0 obs s" and running: "length obs \<le> 3"
  shows "la_leftover (la_cleanup s)"
proof -
  define pv where "pv = progressTimer (la_effects s ! e)"
  define sv where "sv = stepTimer (la_effects s ! e)"
  from inv have len: "length (la_effects s) = e + 1"
    and n: "1 \<le> length obs"
    and main: "map la_closure (la_main s) = la_expected cb e (length obs)"
    and sound: "list_all (la_sound e pv sv (la_clock s)) (la_timers s)"
    and dist: "distinct (map la_id (la_timers s))"
    and ids: "list_all (\<lambda>t. la_id t < la_nextId s) (la_timers s)"
    by (simp_all add: la_inv_def pv_def sv_def)
  have timers: "la_timers (la_cleanup s) =
      filter (\<lambda>t. Some (la_id t) \<noteq> pv) (filter (\<lambda>t. Some (la_id t) \<noteq> sv) (la_timers s))"
    by (simp add: la_cleanup_timers [OF len] pv_def sv_def)
  have "la_expired (la_clock s) t"
    if t: "t \<in> set (la_timers s)" and p: "Some (la_id t) \<noteq> pv" and q: "Some (la_id t) \<noteq> sv" for t
  proof -
    from sound t have st: "la_sound e pv sv (la_clock s) t" by (simp add: list_all_iff)
    show ?thesis
    proof (cases "la_closure t")
      case (ProgressTimer e' d st' a b)
      with st p show ?thesis by (auto simp add: la_sound_def la_expired_def)
    next
      case (StepTimer e' i)
      with st q show ?thesis by (auto simp add: la_sound_def)
    next
      case (CompleteTimer c)
      with t have "CompleteTimer c \<in> set (map la_closure (la_main s))"
        by (force simp add: la_main_def)
      with main n running show ?thesis
        by (auto simp add: la_expected_def split: if_splits)
    qed
  qed
  then have "list_all (la_expired (la_clock s)) (la_timers (la_cleanup s))"
    by (simp add: timers list_all_iff)
  moreover have "distinct (map la_id (la_timers (la_cleanup s)))"
    using dist by (simp add: timers distinct_map_filter)
  moreover have "list_all (\<lambda>t. la_id t < la_nextId s) (la_timers (la_cleanup s))"
    using ids by (simp add: timers list_all_iff)
  ultimately show ?thesis
    by (simp add: la_leftover_def la_cleanup_facts)
qed

lemma la_leftover_fire:
  assumes "\<not> la_mounted s" and left: "la_leftover s"
  shows "\<not> la_mounted (la_fire ev s) \<and> la_leftover (la_fire ev s) \<and>
         la_log (la_fire ev s) = la_log s"
proof (cases ev)
  case TimerFires
  show ?thesis
  proof (cases "la_timers s")
    case Nil
    with assms show ?thesis by (simp add: TimerFires)
  next
    case (Cons t ts)
    define c where "c = max (la_clock s) (la_due t)"
    define s1 where "s1 = s\<lparr>la_timers := ts, la_clock := c\<rparr>"
    have s1: "la_log s1 = la_log s" "la_clock s1 = c" "la_timers s1 = ts"
      "la_mounted s1 = la_mounted s" "la_nextId s1 = la_nextId s"
      by (simp_all add: s1_def)
    have c: "la_clock s \<le> c" by (simp add: c_def)
    from left have t: "la_expired (la_clock s) t"
      and ts: "list_all (la_expired (la_clock s)) ts"
      and dist: "distinct (map la_id ts)"
      and ids: "list_all (\<lambda>t. la_id t < la_nextId s) ts"
      by (simp_all add: la_leftover_def Cons)
    from t obtain e' d st a b where cl: "la_closure t = ProgressTimer e' d st a b"
      by (cases "la_closure t") (simp_all add: la_expired_def)
    with t have d: "0 < d" and over: "st + d \<le> la_clock s"
      by (simp_all add: la_expired_def)
    have fire: "la_fire TimerFires s = animateProgress e' d st a b s1"
      using Cons cl by (simp add: s1_def c_def)
    have over': "\<not> c < st + d" using over c by simp
    have ts': "list_all (la_expired c) ts"
      using ts by (rule list_all_mono) (rule la_expired_clock [OF _ c])
    show ?thesis
      unfolding TimerFires fire la_leftover_def
      using assms(1) d over' ts' dist ids
      by (simp add: animateProgress_facts animateProgress_timers animateProgress_nextId s1)
  qed
next
  case (TimePasses d)
  have "list_all (la_expired (la_clock s + d)) (la_timers s)"
    using left by (auto simp add: la_leftover_def list_all_iff intro: la_expired_clock)
  with assms show ?thesis by (simp add: TimePasses la_leftover_def)
next
  case (ParentRenders c)
  with assms show ?thesis by simp
next
  case Unmounts
  with assms show ?thesis by simp
qed

lemma la_leftover_run:
  assumes "\<not> la_mounted s" and "la_leftover s"
  shows "la_log (la_run evs s) = la_log s"
  using assms
proof (induction evs arbitrary: s)
  case Nil
  show ?case by (simp add: la_run_def)
next
  case (Cons ev evs)
  from la_leftover_fire [OF Cons.prems, of ev]
  have "\<not> la_mounted (la_fire ev s)" "la_leftover (la_fire ev s)"
    "la_log (la_fire ev s) = la_log s" by simp_all
  with Cons.IH [of "la_fire ev s"] show ?case by (simp add: la_run_Cons)
qed

lemma la_inv_unmount:
  assumes inv: "la_inv cb e base t0 obs s" and running: "length obs \<le> 3"
  shows "la_log (la_run (Unmounts # evs) s) = la_log s"
proof -
  from inv have m: "la_mounted s" by (simp add: la_inv_def)
  have "la_leftover ((la_cleanup s)\<lparr>la_mounted := False\<rparr>)"
    using la_inv_cleanup [OF inv running] by (simp add: la_leftover_def)
  moreover have "\<not> la_mounted ((la_cleanup s)\<lparr>la_mounted := False\<rparr>)" by simp
  ultimately have "la_log (la_run evs ((la_cleanup s)\<lparr>la_mounted := False\<rparr>)) =
      la_log ((la_cleanup s)\<lparr>la_mounted := False\<rparr>)"
    by (intro la_leftover_run)
  then show ?thesis
    using m by (simp add: la_run_Cons la_cleanup_facts)
qed

lemma la_inv_restart:
  assumes inv: "la_inv cb e base t0 obs s" and running: "length obs \<le> 3" and new: "cb' \<noteq> cb"
  shows "la_inv cb' (e + 1) (la_log s) (la_clock s) [(la_clock s, StepStarted 0)]
           (la_fire (ParentRenders cb') s)"
proof -
  define s0 where "s0 = (la_cleanup s)\<lparr>la_onComplete := cb'\<rparr>"
  from inv have m: "la_mounted s" and oc: "la_onComplete s = cb"
    and len: "length (la_effects s) = e + 1"
    by (simp_all add: la_inv_def)
  have fire: "la_fire (ParentRenders cb') s = la_effect s0"
    using m oc new by (simp add: s0_def la_cleanup_onComplete)
  have s0: "la_mounted s0" "la_onComplete s0 = cb'" "length (la_effects s0) = e + 1"
    "la_log s0 = la_log s" "la_clock s0 = la_clock s"
    using m len by (simp_all add: s0_def la_cleanup_facts)
  have "la_leftover s0"
    using la_inv_cleanup [OF inv running] by (simp add: la_leftover_def s0_def)
  with s0(1,2) have "la_inv cb' (length (la_effects s0)) (la_log s0) (la_clock s0)
      [(la_clock s0, StepStarted 0)] (la_effect s0)"
    by (rule la_inv_start)
  then show ?thesis by (simp only: fire s0)
qed

lemma la_inv_mount: "la_inv cb 0 [] 0 [(0, StepStarted 0)] (la_mount image' cb)"
proof -
  define s0 where "s0 = \<lparr>la_image = image', la_onComplete = cb, la_mounted = True, currentStep = 0,
      progress' = 0, la_effects = [], la_clock = 0, la_timers = [], la_nextId = 0, la_log = []\<rparr>"
  have "la_inv cb (length (la_effects s0)) (la_log s0) (la_clock s0)
      [(la_clock s0, StepStarted 0)] (la_effect s0)"
    by (rule la_inv_start) (simp_all add: s0_def la_leftover_def)
  then show ?thesis by (simp add: s0_def la_mount_def)
qed

lemma la_log_TimerFires: "prefix (la_log s) (la_log (la_fire TimerFires s))"
proof (cases "la_timers s")
  case Nil
  then show ?thesis by simp
next
  case (Cons t ts)
  show ?thesis
  proof (cases "la_closure t")
    case (ProgressTimer e d st a b)
    then show ?thesis using Cons by (simp add: animateProgress_facts)
  next
    case (StepTimer e i)
    show ?thesis
    proof (cases "i + 1 < 3")
      case True
      then show ?thesis using Cons StepTimer by (simp add: runAnalysis_step_facts)
    next
      case False
      then have "3 \<le> i + 1" by simp
      then show ?thesis using Cons StepTimer by (simp add: runAnalysis_end_facts)
    qed
  next
    case (CompleteTimer cb')
    then show ?thesis using Cons by simp
  qed
qed

lemma la_log_ticks: "prefix (la_log s) (la_log (la_run (replicate n TimerFires) s))"
proof (induction n arbitrary: s)
  case 0
  show ?case by (simp add: la_run_def)
next
  case (Suc n)
  have "prefix (la_log s) (la_log (la_fire TimerFires s))" by (rule la_log_TimerFires)
  also have "prefix \<dots> (la_log (la_run (replicate n TimerFires) (la_fire TimerFires s)))"
    by (rule Suc.IH)
  finally show ?case by (simp add: la_run_Cons)
qed

lemma la_on_time:
  "la_run (replicate 144 TimerFires) (la_mount image' cb) =
     \<lparr>la_image = image', la_onComplete = cb, la_mounted = True, currentStep = 2,
      progress' = 100,
      la_effects = [\<lparr>stepTimer = Some 103, progressTimer = Some 142, totalProgress = 100,
                     onComplete = cb\<rparr>],
      la_clock = 7500, la_timers = [], la_nextId = 144,
      la_log = [(0, StepStarted 0), (2000, StepStarted 1), (5000, StepStarted 2),
                (7000, LoopFinished), (7500, OnCompleteCalled cb)]\<rparr>"
  by (simp add: la_defs funpow_numeral_left)

lemma la_on_time_prefix:
  "prefix (la_log (la_run (replicate n TimerFires) (la_mount image' cb)))
     [(0, StepStarted 0), (2000, StepStarted 1), (5000, StepStarted 2),
      (7000, LoopFinished), (7500, OnCompleteCalled cb)]"
proof (cases "n \<le> 144")
  case True
  then have "replicate 144 TimerFires = replicate n TimerFires @ replicate (144 - n) TimerFires"
    by (simp add: replicate_add [symmetric])
  then have "la_run (replicate 144 TimerFires) (la_mount image' cb) =
      la_run (replicate (144 - n) TimerFires) (la_run (replicate n TimerFires) (la_mount image' cb))"
    by (simp only: la_run_append)
  then have "prefix (la_log (la_run (replicate n TimerFires) (la_mount image' cb)))
      (la_log (la_run (replicate 144 TimerFires) (la_mount image' cb)))"
    by (simp only: la_log_ticks)
  then show ?thesis by (simp only: la_on_time la_state.simps)
next
  case False
  then have "replicate n TimerFires = replicate 144 TimerFires @ replicate (n - 144) TimerFires"
    by (simp add: replicate_add [symmetric])
  then have "la_run (replicate n TimerFires) (la_mount image' cb) =
      la_run (replicate (n - 144) TimerFires) (la_run (replicate 144 TimerFires) (la_mount image' cb))"
    by (simp only: la_run_append)
  also have "\<dots> = la_run (replicate 144 TimerFires) (la_mount image' cb)"
    by (rule la_run_idle) (simp only: la_on_time la_state.simps)
  finally show ?thesis by (simp only: la_on_time la_state.simps prefix_order.refl)
qed

lemma la_setters_image:
  "setProgress p (s\<lparr>la_image := x\<rparr>) = (setProgress p s)\<lparr>la_image := x\<rparr>"
  "setCurrentStep i (s\<lparr>la_image := x\<rparr>) = (setCurrentStep i s)\<lparr>la_image := x\<rparr>"
  "la_setTimeout f d (s\<lparr>la_image := x\<rparr>) = (la_setTimeout f d s)\<lparr>la_image := x\<rparr>"
  "la_clearTimeout k (s\<lparr>la_image := x\<rparr>) = (la_clearTimeout k s)\<lparr>la_image := x\<rparr>"
  by (simp_all add: setProgress_def setCurrentStep_def la_setTimeout_def la_clearTimeout_def
      Let_def split: option.split)

lemma animateProgress_image:
  "animateProgress e d st a b (s\<lparr>la_image := x\<rparr>) = (animateProgress e d st a b s)\<lparr>la_image := x\<rparr>"
proof -
  define sp where "sp = min (real (la_clock s - st) / real d) 1"
  have u: "animateProgress e d st a b s' =
      (if sp < 1 then
         (la_setTimeout (ProgressTimer e d st a b) 50 (setProgress (a + (b - a) * sp) s'))
           \<lparr>la_effects := (la_effects (setProgress (a + (b - a) * sp) s'))
              [e := (la_effects (setProgress (a + (b - a) * sp) s') ! e)
                 \<lparr>progressTimer := Some (la_nextId (setProgress (a + (b - a) * sp) s'))\<rparr>]\<rparr>
       else
         (setProgress (a + (b - a) * sp) s')
           \<lparr>la_effects := (la_effects (setProgress (a + (b - a) * sp) s'))
              [e := (la_effects (setProgress (a + (b - a) * sp) s') ! e)\<lparr>totalProgress := b\<rparr>]\<rparr>)"
    if "la_clock s' = la_clock s" for s'
    unfolding animateProgress_def Let_def sp_def that ..
  show ?thesis
    by (cases "sp < 1"; cases "la_mounted s")
       (simp_all add: u setProgress_def la_setTimeout_def)
qed

lemma runAnalysis_image:
  "runAnalysis e i (s\<lparr>la_image := x\<rparr>) = (runAnalysis e i s)\<lparr>la_image := x\<rparr>"
proof (cases "i < length analysisSteps")
  case True
  have u: "runAnalysis e i s' =
      (la_setTimeout (StepTimer e i) (duration (analysisSteps ! i))
         (animateProgress e (duration (analysisSteps ! i)) (la_clock (setCurrentStep i s'))
            (totalProgress (la_effects (setCurrentStep i s') ! e))
            ((real (i + 1) / real (length analysisSteps)) * 100) (setCurrentStep i s')))
       \<lparr>la_effects :=
          (la_effects (la_setTimeout (StepTimer e i) (duration (analysisSteps ! i))
             (animateProgress e (duration (analysisSteps ! i)) (la_clock (setCurrentStep i s'))
                (totalProgress (la_effects (setCurrentStep i s') ! e))
                ((real (i + 1) / real (length analysisSteps)) * 100) (setCurrentStep i s'))))
          [e := (la_effects (la_setTimeout (StepTimer e i) (duration (analysisSteps ! i))
             (animateProgress e (duration (analysisSteps ! i)) (la_clock (setCurrentStep i s'))
                (totalProgress (la_effects (setCurrentStep i s') ! e))
                ((real (i + 1) / real (length analysisSteps)) * 100) (setCurrentStep i s'))) ! e)
             \<lparr>stepTimer := Some (la_nextId
                (animateProgress e (duration (analysisSteps ! i)) (la_clock (setCurrentStep i s'))
                (totalProgress (la_effects (setCurrentStep i s') ! e))
                ((real (i + 1) / real (length analysisSteps)) * 100) (setCurrentStep i s')))\<rparr>]\<rparr>"
    for s'
    unfolding runAnalysis_def Let_def using True by (simp only: if_True)
  have sel: "la_clock (t\<lparr>la_image := x\<rparr>) = la_clock t" "la_effects (t\<lparr>la_image := x\<rparr>) = la_effects t"
    "la_nextId (t\<lparr>la_image := x\<rparr>) = la_nextId t" for t :: la_state
    by simp_all
  have upd: "t\<lparr>la_image := x, la_effects := v\<rparr> = (t\<lparr>la_effects := v\<rparr>)\<lparr>la_image := x\<rparr>"
    for t :: la_state and v
    by simp
  show ?thesis
    by (simp only: u la_setters_image animateProgress_image sel upd)
next
  case False
  then show ?thesis
    by (cases "la_mounted s")
       (simp_all add: runAnalysis_def Let_def setProgress_def la_setTimeout_def)
qed

lemma la_effect_image: "la_effect (s\<lparr>la_image := x\<rparr>) = (la_effect s)\<lparr>la_image := x\<rparr>"
proof -
  define v where "v = la_effects s @
      [\<lparr>stepTimer = None, progressTimer = None, totalProgress = 0, onComplete = la_onComplete s\<rparr>]"
  have sel: "la_effects (s\<lparr>la_image := x\<rparr>) = la_effects s"
    "la_onComplete (s\<lparr>la_image := x\<rparr>) = la_onComplete s"
    by simp_all
  have "la_effect (s\<lparr>la_image := x\<rparr>) =
      runAnalysis (length (la_effects s)) 0 ((s\<lparr>la_image := x\<rparr>)\<lparr>la_effects := v\<rparr>)"
    by (simp only: la_effect_def sel v_def)
  also have "(s\<lparr>la_image := x\<rparr>)\<lparr>la_effects := v\<rparr> = (s\<lparr>la_effects := v\<rparr>)\<lparr>la_image := x\<rparr>"
    by simp
  also have "runAnalysis (length (la_effects s)) 0 ((s\<lparr>la_effects := v\<rparr>)\<lparr>la_image := x\<rparr>) =
      (runAnalysis (length (la_effects s)) 0 (s\<lparr>la_effects := v\<rparr>))\<lparr>la_image := x\<rparr>"
    by (rule runAnalysis_image)
  also have "\<dots> = (la_effect s)\<lparr>la_image := x\<rparr>"
    by (simp only: la_effect_def v_def)
  finally show ?thesis .
qed

lemma la_cleanup_image: "la_cleanup (s\<lparr>la_image := x\<rparr>) = (la_cleanup s)\<lparr>la_image := x\<rparr>"
  by (simp add: la_cleanup_def la_setters_image split: list.split)

lemma la_fire_image: "la_fire e (s\<lparr>la_image := x\<rparr>) = (la_fire e s)\<lparr>la_image := x\<rparr>"
proof (cases e)
  case TimerFires
  show ?thesis
  proof (cases "la_timers s")
    case Nil
    then show ?thesis by (simp add: TimerFires)
  next
    case (Cons t ts)
    have pop: "s\<lparr>la_image := x, la_timers := ts, la_clock := c\<rparr> =
        (s\<lparr>la_timers := ts, la_clock := c\<rparr>)\<lparr>la_image := x\<rparr>" for c
      by simp
    show ?thesis
      by (cases "la_closure t")
         (simp_all add: TimerFires Cons pop animateProgress_image runAnalysis_image
            del: la_state.update_convs)
  qed
next
  case (TimePasses d)
  then show ?thesis by simp
next
  case (ParentRenders c)
  have "s\<lparr>la_image := x, la_onComplete := c\<rparr> = (s\<lparr>la_onComplete := c\<rparr>)\<lparr>la_image := x\<rparr>"
    by simp
  then have "la_effect (la_cleanup (s\<lparr>la_image := x, la_onComplete := c\<rparr>)) =
      (la_effect (la_cleanup (s\<lparr>la_onComplete := c\<rparr>)))\<lparr>la_image := x\<rparr>"
    by (simp only: la_effect_image la_cleanup_image)
  then show ?thesis by (simp add: ParentRenders)
next
  case Unmounts
  then show ?thesis
    by (simp add: la_cleanup_image)
qed

lemma la_run_image: "la_run evs (s\<lparr>la_image := x\<rparr>) = (la_run evs s)\<lparr>la_image := x\<rparr>"
  by (induction evs arbitrary: s) (simp_all add: la_run_def la_fire_image)

lemma la_mount_image: "la_mount image' cb = (la_mount image'' cb)\<lparr>la_image := image'\<rparr>"
  by (simp add: la_defs)

lemma la_image_independent:
  "la_run evs (la_mount image' cb) = (la_run evs (la_mount image'' cb))\<lparr>la_image := image'\<rparr>"
  by (metis la_mount_image la_run_image)

subsection \<open>LoadingAnalysis and the results screen\<close>

lemma renderContent_predictions:
  "shownPredictions (renderContent s) = None \<or> shownPredictions (renderContent s) = Some mockPredictions"
  by (simp add: renderContent_def split: option.split)

lemma renderContent_analysis:
  assumes "image' \<noteq> []"
  shows "renderContent (handleImageCapture f image' s) = LoadingAnalysisView image'"
    and "renderContent (handleAnalysisComplete (handleImageCapture f image' s)) =
           BreedResultsView image' mockPredictions"
proof -
  have distinct_modes: "str ''analyzing'' \<noteq> str ''home''" "str ''analyzing'' \<noteq> str ''multi-angle''"
    "str ''analyzing'' \<noteq> str ''batch''" "str ''analyzing'' \<noteq> str ''analytics''"
    "str ''analyzing'' \<noteq> str ''location''" "str ''analyzing'' \<noteq> str ''voice''"
    "str ''analyzing'' \<noteq> str ''capture''"
    "str ''results'' \<noteq> str ''home''" "str ''results'' \<noteq> str ''multi-angle''"
    "str ''results'' \<noteq> str ''batch''" "str ''results'' \<noteq> str ''analytics''"
    "str ''results'' \<noteq> str ''location''" "str ''results'' \<noteq> str ''voice''"
    "str ''results'' \<noteq> str ''capture''" "str ''results'' \<noteq> str ''analyzing''"
    by (simp_all add: str_def)
  show "renderContent (handleImageCapture f image' s) = LoadingAnalysisView image'"
    and "renderContent (handleAnalysisComplete (handleImageCapture f image' s)) =
           BreedResultsView image' mockPredictions"
    using assms
    by (simp_all add: renderContent_def handleImageCapture_def handleAnalysisComplete_def
        distinct_modes)
qed

text \<open>
  C1, as claimed: for every image the analysis runs its three steps and the last delay and
  then calls \<open>onComplete\<close> exactly once. The image \<open>blob:cow\<close>, mounted with the
  \<open>onComplete\<close> number 0 and 20 timers fired, which takes 1000 ms: when the component is
  then unmounted (the header's "Back to Home" does that), the cleanup of the effect clears
  its timers and \<open>onComplete\<close> is never called, however many timers fire afterwards. When
  instead the parent then renders and passes another function, number 1, the effect runs
  again: the first step starts a second time at 1000 ms, the steps that follow start at 3000
  and 6000 ms, and the one call of \<open>onComplete\<close>, at 8500 ms, is of the new function.
\<close>

theorem C1_unmount_or_new_onComplete_counterexample:
  "la_clock (la_run (replicate 20 TimerFires @ [Unmounts]) (la_mount (str ''blob:cow'') 0)) = 1000 \<and>
   (\<forall>n. la_called (la_log (la_run (replicate 20 TimerFires @ [Unmounts] @ replicate n TimerFires)
           (la_mount (str ''blob:cow'') 0))) = []) \<and>
   la_log (la_run (replicate 20 TimerFires @ [ParentRenders 1] @ replicate 144 TimerFires)
      (la_mount (str ''blob:cow'') 0)) =
     [(0, StepStarted 0), (1000, StepStarted 0), (3000, StepStarted 1), (6000, StepStarted 2),
      (8000, LoopFinished), (8500, OnCompleteCalled 1)]"
proof -
  have unmounted: "la_run (replicate 20 TimerFires @ [Unmounts]) (la_mount (str ''blob:cow'') 0) =
      \<lparr>la_image = str ''blob:cow'', la_onComplete = 0, la_mounted = False, currentStep = 0,
       progress' = 50 / 3,
       la_effects = [\<lparr>stepTimer = Some 1, progressTimer = Some 21, totalProgress = 0,
                      onComplete = 0\<rparr>],
       la_clock = 1000, la_timers = [], la_nextId = 22, la_log = [(0, StepStarted 0)]\<rparr>"
    by (simp add: la_defs funpow_numeral_left)
  have never: "la_called (la_log (la_run (replicate 20 TimerFires @ [Unmounts] @ replicate n TimerFires)
           (la_mount (str ''blob:cow'') 0))) = []" for n
  proof -
    have "la_run (replicate 20 TimerFires @ [Unmounts] @ replicate n TimerFires)
           (la_mount (str ''blob:cow'') 0) =
        la_run (replicate n TimerFires)
          (la_run (replicate 20 TimerFires @ [Unmounts]) (la_mount (str ''blob:cow'') 0))"
      by (simp only: la_run_append append_assoc [symmetric])
    also have "\<dots> = la_run (replicate 20 TimerFires @ [Unmounts]) (la_mount (str ''blob:cow'') 0)"
      by (rule la_run_idle) (simp only: unmounted la_state.simps)
    finally show ?thesis by (simp only: unmounted la_state.simps la_called.simps)
  qed
  have restarted: "la_log (la_run (replicate 20 TimerFires @ [ParentRenders 1] @ replicate 144 TimerFires)
      (la_mount (str ''blob:cow'') 0)) =
     [(0, StepStarted 0), (1000, StepStarted 0), (3000, StepStarted 1), (6000, StepStarted 2),
      (8000, LoopFinished), (8500, OnCompleteCalled 1)]"
    by (simp add: la_defs funpow_numeral_left)
  from unmounted never restarted show ?thesis by simp
qed

text \<open>
  C1, amended. Take any image and any run in which the component stays mounted and every
  render of its parent passes the same \<open>onComplete\<close>; timers may fire late. The durations of
  the steps are 2000, 3000 and 2000 ms. What is observed is always a beginning of the same
  sequence: step 0, step 1, step 2, the end of the loop, one call of \<open>onComplete\<close>. The
  steps start no earlier than 0, 2000 and 5000 ms after the mount, the loop ends no earlier
  than 7000 ms and the call comes no earlier than 7500 ms. So at every moment \<open>onComplete\<close>
  has been called either not at all or once, and from some number of further timer firings
  on it has been called exactly once. When the timers fire on time the times are exactly 0,
  2000, 5000, 7000 and 7500 ms: 144 firings complete the run. Nothing but the \<open>image\<close> prop
  differs between the runs for two images.

  While the loop has not ended, \<open>onComplete\<close> has not been called, and the cleanup of the
  effect ends the run. When the component is then unmounted, nothing more is observed,
  whatever happens afterwards: \<open>onComplete\<close> is never called. When instead the parent then
  passes another \<open>onComplete\<close> and goes on passing that one, the sequence starts again:
  what is observed from then on is a beginning of the same sequence with the new function,
  with the same least delays counted from the restart, and from some number of further
  timer firings on the new function has been called exactly once, the old one never.

  In the controller, capturing an image with a non-empty URL shows \<open>LoadingAnalysis\<close> for
  it; this stays until \<open>onComplete\<close> is called, and then the results screen shows the image
  with \<open>mockPredictions\<close>: Gir 87, Sahiwal 72, Red Sindhi 64. Whatever the state, the
  results screen shows no other predictions.
\<close>

theorem C1_undisturbed_analysis_calls_onComplete_once:
  assumes "list_all (la_quiet cb) evs"
  shows
   "map duration analysisSteps = [2000, 3000, 2000] \<and>
    prefix (map snd (la_log (la_run evs (la_mount image' cb))))
      [StepStarted 0, StepStarted 1, StepStarted 2, LoopFinished, OnCompleteCalled cb] \<and>
    list_all2 (\<le>)
      (take (length (la_log (la_run evs (la_mount image' cb)))) [0, 2000, 5000, 7000, 7500])
      (map fst (la_log (la_run evs (la_mount image' cb)))) \<and>
    (la_called (la_log (la_run evs (la_mount image' cb))) = [] \<or>
     (\<exists>t. 7500 \<le> t \<and> t \<le> la_clock (la_run evs (la_mount image' cb)) \<and>
          la_called (la_log (la_run evs (la_mount image' cb))) = [(t, cb)])) \<and>
    (\<exists>n. \<forall>m\<ge>n. \<exists>t. 7500 \<le> t \<and>
       la_called (la_log (la_run (evs @ replicate m TimerFires) (la_mount image' cb))) = [(t, cb)]) \<and>
    la_log (la_run (replicate 144 TimerFires) (la_mount image' cb)) =
      [(0, StepStarted 0), (2000, StepStarted 1), (5000, StepStarted 2), (7000, LoopFinished),
       (7500, OnCompleteCalled cb)] \<and>
    (\<forall>n. prefix (la_log (la_run (replicate n TimerFires) (la_mount image' cb)))
      [(0, StepStarted 0), (2000, StepStarted 1), (5000, StepStarted 2), (7000, LoopFinished),
       (7500, OnCompleteCalled cb)]) \<and>
    la_run evs (la_mount image' cb) = (la_run evs (la_mount image'' cb))\<lparr>la_image := image'\<rparr> \<and>
    (LoopFinished \<notin> set (map snd (la_log (la_run evs (la_mount image' cb)))) \<longrightarrow>
       la_called (la_log (la_run evs (la_mount image' cb))) = [] \<and>
       (\<forall>evs'. la_log (la_run (evs @ Unmounts # evs') (la_mount image' cb)) =
                la_log (la_run evs (la_mount image' cb))) \<and>
       (\<forall>cb' evs'. cb' \<noteq> cb \<and> list_all (la_quiet cb') evs' \<longrightarrow>
          (\<exists>obs. la_log (la_run (evs @ ParentRenders cb' # evs') (la_mount image' cb)) =
                   la_log (la_run evs (la_mount image' cb)) @ obs \<and>
                 obs \<noteq> [] \<and>
                 prefix (map snd obs)
                   [StepStarted 0, StepStarted 1, StepStarted 2, LoopFinished,
                    OnCompleteCalled cb'] \<and>
                 list_all2 (\<le>)
                   (map ((+) (la_clock (la_run evs (la_mount image' cb))))
                      (take (length obs) [0, 2000, 5000, 7000, 7500]))
                   (map fst obs)) \<and>
          (\<exists>n. \<forall>m\<ge>n. \<exists>t. la_clock (la_run evs (la_mount image' cb)) + 7500 \<le> t \<and>
             la_called (la_log (la_run (evs @ ParentRenders cb' # evs' @ replicate m TimerFires)
                                  (la_mount image' cb))) = [(t, cb')]))) \<and>
    (image' \<noteq> [] \<longrightarrow>
       renderContent (handleImageCapture f image' s) = LoadingAnalysisView image' \<and>
       renderContent (deliver (la_called (la_log (la_run evs (la_mount image' cb))))
                        (handleImageCapture f image' s)) =
         (if la_called (la_log (la_run evs (la_mount image' cb))) = []
          then LoadingAnalysisView image' else BreedResultsView image' mockPredictions)) \<and>
    (shownPredictions (renderContent s) = None \<or>
     shownPredictions (renderContent s) = Some mockPredictions) \<and>
    map (\<lambda>p. (BreedPrediction.name p, BreedPrediction.confidence p)) mockPredictions =
      [(str ''Gir'', 87), (str ''Sahiwal'', 72), (str ''Red Sindhi'', 64)]"
proof -
  define S where "S = la_run evs (la_mount image' cb)"
  obtain obs where inv: "la_inv cb 0 [] 0 obs S"
    unfolding S_def using la_inv_run [OF assms la_inv_mount] by blast
  then have log: "la_log S = obs" by (simp add: la_inv_def)
  have shift: "map ((+) (0::nat)) xs = xs" for xs by (induction xs) simp_all
  have durations: "map duration analysisSteps = [2000, 3000, 2000]"
    by (simp add: analysisSteps_def)
  have order: "prefix (map snd (la_log S))
      [StepStarted 0, StepStarted 1, StepStarted 2, LoopFinished, OnCompleteCalled cb]"
    using la_inv_sequence [OF inv] by (simp add: la_sequence_def log)
  have times: "list_all2 (\<le>) (take (length (la_log S)) [0, 2000, 5000, 7000, 7500])
      (map fst (la_log S))"
    using inv by (simp add: la_inv_def la_schedule_def log shift)
  have calls: "la_called (la_log S) = [] \<or>
      (\<exists>t. 7500 \<le> t \<and> t \<le> la_clock S \<and> la_called (la_log S) = [(t, cb)])"
    using la_inv_called [OF inv] by (simp add: log)
  have finishes: "\<exists>n. \<forall>m\<ge>n. \<exists>t. 7500 \<le> t \<and>
       la_called (la_log (la_run (evs @ replicate m TimerFires) (la_mount image' cb))) = [(t, cb)]"
    using la_finishes [OF inv] by (simp add: la_run_append S_def)
  note on_time = la_on_time [of image' cb]
  have log_on_time: "la_log (la_run (replicate 144 TimerFires) (la_mount image' cb)) =
      [(0, StepStarted 0), (2000, StepStarted 1), (5000, StepStarted 2), (7000, LoopFinished),
       (7500, OnCompleteCalled cb)]"
    by (simp only: on_time la_state.simps)
  have beginning: "\<forall>n. prefix (la_log (la_run (replicate n TimerFires) (la_mount image' cb)))
      [(0, StepStarted 0), (2000, StepStarted 1), (5000, StepStarted 2), (7000, LoopFinished),
       (7500, OnCompleteCalled cb)]"
    by (simp only: la_on_time_prefix simp_thms)
  have same: "S = (la_run evs (la_mount image'' cb))\<lparr>la_image := image'\<rparr>"
    unfolding S_def by (rule la_image_independent)
  have none: "la_called (la_log S) = []"
    and unmounted: "\<forall>evs'. la_log (la_run (evs @ Unmounts # evs') (la_mount image' cb)) = la_log S"
    and restarted: "\<forall>cb' evs'. cb' \<noteq> cb \<and> list_all (la_quiet cb') evs' \<longrightarrow>
          (\<exists>obs. la_log (la_run (evs @ ParentRenders cb' # evs') (la_mount image' cb)) =
                   la_log S @ obs \<and>
                 obs \<noteq> [] \<and>
                 prefix (map snd obs)
                   [StepStarted 0, StepStarted 1, StepStarted 2, LoopFinished,
                    OnCompleteCalled cb'] \<and>
                 list_all2 (\<le>)
                   (map ((+) (la_clock S)) (take (length obs) [0, 2000, 5000, 7000, 7500]))
                   (map fst obs)) \<and>
          (\<exists>n. \<forall>m\<ge>n. \<exists>t. la_clock S + 7500 \<le> t \<and>
             la_called (la_log (la_run (evs @ ParentRenders cb' # evs' @ replicate m TimerFires)
                                  (la_mount image' cb))) = [(t, cb')])"
    if running: "LoopFinished \<notin> set (map snd (la_log S))"
  proof -
    from running have run': "LoopFinished \<notin> set (map snd obs)" by (simp add: log)
    note short = la_inv_running(1) [OF inv run']
    show none: "la_called (la_log S) = []"
      using la_inv_running(2) [OF inv run'] by (simp add: log)
    show "\<forall>evs'. la_log (la_run (evs @ Unmounts # evs') (la_mount image' cb)) = la_log S"
      using la_inv_unmount [OF inv short] by (simp add: la_run_append S_def)
    show "\<forall>cb' evs'. cb' \<noteq> cb \<and> list_all (la_quiet cb') evs' \<longrightarrow>
          (\<exists>obs. la_log (la_run (evs @ ParentRenders cb' # evs') (la_mount image' cb)) =
                   la_log S @ obs \<and>
                 obs \<noteq> [] \<and>
                 prefix (map snd obs)
                   [StepStarted 0, StepStarted 1, StepStarted 2, LoopFinished,
                    OnCompleteCalled cb'] \<and>
                 list_all2 (\<le>)
                   (map ((+) (la_clock S)) (take (length obs) [0, 2000, 5000, 7000, 7500]))
                   (map fst obs)) \<and>
          (\<exists>n. \<forall>m\<ge>n. \<exists>t. la_clock S + 7500 \<le> t \<and>
             la_called (la_log (la_run (evs @ ParentRenders cb' # evs' @ replicate m TimerFires)
                                  (la_mount image' cb))) = [(t, cb')])"
    proof (intro allI impI, elim conjE)
      fix cb' evs'
      assume new: "cb' \<noteq> cb" and quiet: "list_all (la_quiet cb') evs'"
      define S' where "S' = la_run evs' (la_fire (ParentRenders cb') S)"
      have S': "la_run (evs @ ParentRenders cb' # evs') (la_mount image' cb) = S'"
        by (simp add: la_run_append la_run_Cons S_def S'_def)
      have S'': "la_run (evs @ ParentRenders cb' # evs' @ replicate m TimerFires)
          (la_mount image' cb) = la_run (replicate m TimerFires) S'" for m
        by (simp add: la_run_append la_run_Cons S_def S'_def)
      from la_inv_run [OF quiet la_inv_restart [OF inv short new]]
      obtain obs' where inv': "la_inv cb' (0 + 1) (la_log S) (la_clock S) obs' S'"
        unfolding S'_def by blast
      have "la_log S' = la_log S @ obs'" "obs' \<noteq> []"
        using inv' by (auto simp add: la_inv_def)
      moreover have "prefix (map snd obs')
          [StepStarted 0, StepStarted 1, StepStarted 2, LoopFinished, OnCompleteCalled cb']"
        using la_inv_sequence [OF inv'] by (simp add: la_sequence_def)
      moreover have "list_all2 (\<le>)
          (map ((+) (la_clock S)) (take (length obs') [0, 2000, 5000, 7000, 7500])) (map fst obs')"
        using inv' by (simp add: la_inv_def la_schedule_def)
      ultimately have a: "\<exists>obs. la_log S' = la_log S @ obs \<and> obs \<noteq> [] \<and>
          prefix (map snd obs)
            [StepStarted 0, StepStarted 1, StepStarted 2, LoopFinished, OnCompleteCalled cb'] \<and>
          list_all2 (\<le>)
            (map ((+) (la_clock S)) (take (length obs) [0, 2000, 5000, 7000, 7500])) (map fst obs)"
        by blast
      have b: "\<exists>n. \<forall>m\<ge>n. \<exists>t. la_clock S + 7500 \<le> t \<and>
          la_called (la_log (la_run (replicate m TimerFires) S')) = [(t, cb')]"
        using la_finishes [OF inv'] by (simp add: none)
      from a b show "(\<exists>obs. la_log (la_run (evs @ ParentRenders cb' # evs') (la_mount image' cb)) =
                   la_log S @ obs \<and>
                 obs \<noteq> [] \<and>
                 prefix (map snd obs)
                   [StepStarted 0, StepStarted 1, StepStarted 2, LoopFinished,
                    OnCompleteCalled cb'] \<and>
                 list_all2 (\<le>)
                   (map ((+) (la_clock S)) (take (length obs) [0, 2000, 5000, 7000, 7500]))
                   (map fst obs)) \<and>
          (\<exists>n. \<forall>m\<ge>n. \<exists>t. la_clock S + 7500 \<le> t \<and>
             la_called (la_log (la_run (evs @ ParentRenders cb' # evs' @ replicate m TimerFires)
                                  (la_mount image' cb))) = [(t, cb')])"
        by (simp only: S' S'')
    qed
  qed
  have shown: "renderContent (handleImageCapture f image' s) = LoadingAnalysisView image'"
    and after: "renderContent (deliver (la_called (la_log S)) (handleImageCapture f image' s)) =
         (if la_called (la_log S) = [] then LoadingAnalysisView image'
          else BreedResultsView image' mockPredictions)" if "image' \<noteq> []"
  proof -
    show a: "renderContent (handleImageCapture f image' s) = LoadingAnalysisView image'"
      using that by (rule renderContent_analysis)
    from calls show "renderContent (deliver (la_called (la_log S)) (handleImageCapture f image' s)) =
         (if la_called (la_log S) = [] then LoadingAnalysisView image'
          else BreedResultsView image' mockPredictions)"
    proof
      assume "la_called (la_log S) = []"
      then show ?thesis by (simp add: deliver_def a)
    next
      assume "\<exists>t. 7500 \<le> t \<and> t \<le> la_clock S \<and> la_called (la_log S) = [(t, cb)]"
      then obtain t where "la_called (la_log S) = [(t, cb)]" by blast
      then show ?thesis
        by (simp add: deliver_def renderContent_analysis(2) [OF that])
    qed
  qed
  have table: "map (\<lambda>p. (BreedPrediction.name p, BreedPrediction.confidence p)) mockPredictions =
     [(str ''Gir'', 87), (str ''Sahiwal'', 72), (str ''Red Sindhi'', 64)]"
    by (simp add: mockPredictions_def)
  have disturbed: "LoopFinished \<notin> set (map snd (la_log S)) \<longrightarrow>
       la_called (la_log S) = [] \<and>
       (\<forall>evs'. la_log (la_run (evs @ Unmounts # evs') (la_mount image' cb)) = la_log S) \<and>
       (\<forall>cb' evs'. cb' \<noteq> cb \<and> list_all (la_quiet cb') evs' \<longrightarrow>
          (\<exists>obs. la_log (la_run (evs @ ParentRenders cb' # evs') (la_mount image' cb)) =
                   la_log S @ obs \<and>
                 obs \<noteq> [] \<and>
                 prefix (map snd obs)
                   [StepStarted 0, StepStarted 1, StepStarted 2, LoopFinished,
                    OnCompleteCalled cb'] \<and>
                 list_all2 (\<le>)
                   (map ((+) (la_clock S)) (take (length obs) [0, 2000, 5000, 7000, 7500]))
                   (map fst obs)) \<and>
          (\<exists>n. \<forall>m\<ge>n. \<exists>t. la_clock S + 7500 \<le> t \<and>
             la_called (la_log (la_run (evs @ ParentRenders cb' # evs' @ replicate m TimerFires)
                                  (la_mount image' cb))) = [(t, cb')]))"
    using none unmounted restarted by (intro impI conjI)
  have controller: "image' \<noteq> [] \<longrightarrow>
       renderContent (handleImageCapture f image' s) = LoadingAnalysisView image' \<and>
       renderContent (deliver (la_called (la_log S)) (handleImageCapture f image' s)) =
         (if la_called (la_log S) = [] then LoadingAnalysisView image'
          else BreedResultsView image' mockPredictions)"
    using shown after by (intro impI conjI)
  show ?thesis
    unfolding S_def [symmetric]
    by (intro conjI durations order times calls finishes log_on_time beginning same disturbed
        controller renderContent_predictions table)
qed

text \<open>
  The image \<open>blob:cow\<close>, captured on the home screen. After 20 timers, at 1000 ms, the
  loop has not ended: unmounted then, the component never calls \<open>onComplete\<close>, and given
  the \<open>onComplete\<close> number 1 then, it comes to call that one once and no other. Left alone,
  after the 144 timers of the run, fired on time, it has called \<open>onComplete\<close> once, at 7500
  ms, and the results screen shows the image with \<open>mockPredictions\<close>.
\<close>

theorem C1_undisturbed_analysis_calls_onComplete_once_witness:
  "list_all (la_quiet 0) (replicate 20 TimerFires) \<and> str ''blob:cow'' \<noteq> [] \<and>
   LoopFinished \<notin> set (map snd (la_log (la_run (replicate 20 TimerFires)
      (la_mount (str ''blob:cow'') 0)))) \<and>
   (1::nat) \<noteq> 0 \<and> list_all (la_quiet 1) (replicate 7 TimerFires) \<and>
   (\<forall>evs'. la_called (la_log (la_run (replicate 20 TimerFires @ Unmounts # evs')
      (la_mount (str ''blob:cow'') 0))) = []) \<and>
   (\<exists>n. \<forall>m\<ge>n. \<exists>t. 8500 \<le> t \<and>
      la_called (la_log (la_run
        (replicate 20 TimerFires @ ParentRenders 1 # replicate 7 TimerFires @ replicate m TimerFires)
        (la_mount (str ''blob:cow'') 0))) = [(t, 1)]) \<and>
   la_called (la_log (la_run (replicate 144 TimerFires) (la_mount (str ''blob:cow'') 0))) =
     [(7500, 0)] \<and>
   renderContent (handleImageCapture cowFile (str ''blob:cow'') app_state0) =
     LoadingAnalysisView (str ''blob:cow'') \<and>
   renderContent (deliver
       (la_called (la_log (la_run (replicate 144 TimerFires) (la_mount (str ''blob:cow'') 0))))
       (handleImageCapture cowFile (str ''blob:cow'') app_state0)) =
     BreedResultsView (str ''blob:cow'') mockPredictions"
proof -
  define M where "M = la_mount (str ''blob:cow'') 0"
  have quiet: "list_all (la_quiet 0) (replicate n TimerFires)"
    and quiet': "list_all (la_quiet 1) (replicate n TimerFires)" for n
    by (simp_all add: list_all_iff)
  have ne: "str ''blob:cow'' \<noteq> []" by (simp add: str_def)
  have early: "la_run (replicate 20 TimerFires) M =
      \<lparr>la_image = str ''blob:cow'', la_onComplete = 0, la_mounted = True, currentStep = 0,
       progress' = 50 / 3,
       la_effects = [\<lparr>stepTimer = Some 1, progressTimer = Some 21, totalProgress = 0,
                      onComplete = 0\<rparr>],
       la_clock = 1000,
       la_timers = [\<lparr>la_due = 1050, la_id = 21,
                      la_closure = ProgressTimer 0 2000 0 0 (100 / 3)\<rparr>,
                    \<lparr>la_due = 2000, la_id = 1, la_closure = StepTimer 0 0\<rparr>],
       la_nextId = 22, la_log = [(0, StepStarted 0)]\<rparr>"
    unfolding M_def by (simp add: la_defs funpow_numeral_left)
  have running: "LoopFinished \<notin> set (map snd (la_log (la_run (replicate 20 TimerFires) M)))"
    and clock: "la_clock (la_run (replicate 20 TimerFires) M) = 1000"
    by (simp_all add: early)
  note early_run = C1_undisturbed_analysis_calls_onComplete_once
      [OF quiet [of 20], where ?image' = "str ''blob:cow''" and ?f = cowFile and ?s = app_state0,
       folded M_def]
  note full_run = C1_undisturbed_analysis_calls_onComplete_once
      [OF quiet [of 144], where ?image' = "str ''blob:cow''" and ?f = cowFile and ?s = app_state0,
       folded M_def]
  from early_run running
  have never: "\<forall>evs'. la_called (la_log (la_run (replicate 20 TimerFires @ Unmounts # evs') M)) = []"
    by simp
  from early_run running quiet' [of 7]
  have "\<exists>n. \<forall>m\<ge>n. \<exists>t. la_clock (la_run (replicate 20 TimerFires) M) + 7500 \<le> t \<and>
      la_called (la_log (la_run
        (replicate 20 TimerFires @ ParentRenders 1 # replicate 7 TimerFires @ replicate m TimerFires)
        M)) = [(t, 1)]"
    by blast
  then have again: "\<exists>n. \<forall>m\<ge>n. \<exists>t. 8500 \<le> t \<and>
      la_called (la_log (la_run
        (replicate 20 TimerFires @ ParentRenders 1 # replicate 7 TimerFires @ replicate m TimerFires)
        M)) = [(t, 1)]"
    by (simp add: clock)
  from full_run have log: "la_log (la_run (replicate 144 TimerFires) M) =
      [(0, StepStarted 0), (2000, StepStarted 1), (5000, StepStarted 2), (7000, LoopFinished),
       (7500, OnCompleteCalled 0)]"
    by blast
  have called: "la_called (la_log (la_run (replicate 144 TimerFires) M)) = [(7500, 0)]"
    by (simp add: log)
  from full_run ne
  have shown: "renderContent (handleImageCapture cowFile (str ''blob:cow'') app_state0) =
      LoadingAnalysisView (str ''blob:cow'')"
    and "renderContent (deliver (la_called (la_log (la_run (replicate 144 TimerFires) M)))
       (handleImageCapture cowFile (str ''blob:cow'') app_state0)) =
     (if la_called (la_log (la_run (replicate 144 TimerFires) M)) = []
      then LoadingAnalysisView (str ''blob:cow'')
      else BreedResultsView (str ''blob:cow'') mockPredictions)"
    by blast+
  then have results: "renderContent (deliver (la_called (la_log (la_run (replicate 144 TimerFires) M)))
       (handleImageCapture cowFile (str ''blob:cow'') app_state0)) =
     BreedResultsView (str ''blob:cow'') mockPredictions"
    by (simp add: called)
  show ?thesis
    unfolding M_def [symmetric]
    using quiet [of 20] ne running quiet' [of 7] never again called shown results
    by simp
qed

text \<open>
  The timer of 500 ms is not one of the two that the cleanup clears. The image
  \<open>blob:cow\<close>, unmounted at 7000 ms, when 143 timers have fired and the loop has ended:
  the last timer still fires, and calls \<open>onComplete\<close> at 7500 ms.
\<close>

lemma la_last_timer_survives_cleanup:
  "\<not> la_mounted (la_run (replicate 143 TimerFires @ [Unmounts, TimerFires])
       (la_mount (str ''blob:cow'') 0)) \<and>
   la_called (la_log (la_run (replicate 143 TimerFires @ [Unmounts, TimerFires])
       (la_mount (str ''blob:cow'') 0))) = [(7500, 0)]"
  by (simp add: la_defs funpow_numeral_left)

text \<open>
  When instead the parent passes another function at 7000 ms, the sequence starts again
  beside that timer, and both functions are called: number 0 at 7500 ms, number 1 at
  14500 ms.
\<close>

lemma la_last_timer_survives_new_onComplete:
  "la_called (la_log (la_run (replicate 143 TimerFires @ [ParentRenders 1] @ replicate 145 TimerFires)
       (la_mount (str ''blob:cow'') 0))) = [(7500, 0), (14500, 1)]"
  by (simp add: la_defs funpow_numeral_left)

subsection \<open>BreedAI: the modes\<close>

lemma app_fire_mode: "currentState (app_fire e s) \<in> set AppState"
  by (cases e)
     (simp_all add: AppState_def multiAngleComplete_def handleImageCapture_def
        handleAnalysisComplete_def handleBreedConfirm_def handleBreedCorrect_def
        handleStartOver_def)

lemma app_run_snoc: "app_run (evs @ [e]) s = app_fire e (app_run evs s)"
  by (simp add: app_run_def)

lemma app_run_mode: "currentState (app_run evs app_state0) \<in> set AppState"
proof (induction evs rule: rev_induct)
  case Nil
  show ?case by (simp add: app_run_def app_state0_def AppState_def)
next
  case (snoc e evs)
  show ?case by (simp only: app_run_snoc app_fire_mode)
qed

lemma AppState_distinct: "distinct AppState"
  by (simp add: AppState_def str_def)

lemma filter_eq_distinct:
  "distinct xs \<Longrightarrow> x \<in> set xs \<Longrightarrow> length (filter (\<lambda>m. m = x) xs) = 1"
  by (induction xs) (auto simp: filter_empty_conv)

lemma AppState_reached:
  "set AppState \<subseteq> range (\<lambda>evs. currentState (app_run evs app_state0))"
proof -
  let ?mode = "\<lambda>evs. currentState (app_run evs app_state0)"
  note defs = app_run_def app_state0_def handleImageCapture_def handleAnalysisComplete_def
    handleBreedConfirm_def
  have r: "?mode evs \<in> range ?mode" for evs
    by (rule rangeI)
  have "str ''home'' \<in> range ?mode"
    using r [of "[]"] by (simp add: defs)
  moreover have "str ''capture'' \<in> range ?mode"
    using r [of "[QuickAnalysis]"] by (simp add: defs)
  moreover have "str ''multi-angle'' \<in> range ?mode"
    using r [of "[MultiAngleAnalysis]"] by (simp add: defs)
  moreover have "str ''batch'' \<in> range ?mode"
    using r [of "[BatchProcessingButton]"] by (simp add: defs)
  moreover have "str ''analytics'' \<in> range ?mode"
    using r [of "[ViewAnalytics]"] by (simp add: defs)
  moreover have "str ''location'' \<in> range ?mode"
    using r [of "[LocationServices]"] by (simp add: defs)
  moreover have "str ''voice'' \<in> range ?mode"
    using r [of "[VoiceCommandsButton]"] by (simp add: defs)
  moreover have "str ''analyzing'' \<in> range ?mode"
    using r [of "[QuickAnalysis, ImageCapture cowFile (str ''blob:cow'')]"] by (simp add: defs)
  moreover have "str ''results'' \<in> range ?mode"
    using r [of "[QuickAnalysis, ImageCapture cowFile (str ''blob:cow''), AnalysisComplete]"]
    by (simp add: defs)
  moreover have "str ''database'' \<in> range ?mode"
    using r [of "[BreedDatabaseButton]"] by (simp add: defs)
  moreover have "str ''confirmed'' \<in> range ?mode"
    using r [of "[QuickAnalysis, ImageCapture cowFile (str ''blob:cow''), AnalysisComplete,
        BreedConfirm (hd mockPredictions)]"]
    by (simp add: defs)
  ultimately show ?thesis
    by (simp add: AppState_def)
qed

text \<open>
  C2. The controller \<open>BreedAI\<close> holds one mode at every moment, and it is one of exactly
  eleven, pairwise different: home, capture, multi-angle, batch, analytics, location, voice,
  analyzing, results, database, confirmed. Every callback leaves the mode at one of these
  eleven values, whatever the state before; so in every state reached from the initial one
  exactly one of the eleven modes is the active one, and each of the eleven is reached by
  some sequence of callbacks.
\<close>

theorem C2_mode_is_one_of_eleven:
  "AppState = [str ''home'', str ''capture'', str ''multi-angle'', str ''batch'', str ''analytics'',
     str ''location'', str ''voice'', str ''analyzing'', str ''results'', str ''database'',
     str ''confirmed''] \<and>
   length AppState = 11 \<and>
   distinct AppState \<and>
   currentState (app_fire e s) \<in> set AppState \<and>
   currentState (app_run evs app_state0) \<in> set AppState \<and>
   length (filter (\<lambda>m. m = currentState (app_run evs app_state0)) AppState) = 1 \<and>
   range (\<lambda>evs. currentState (app_run evs app_state0)) = set AppState"
proof (intro conjI)
  show "AppState = [str ''home'', str ''capture'', str ''multi-angle'', str ''batch'', str ''analytics'',
     str ''location'', str ''voice'', str ''analyzing'', str ''results'', str ''database'',
     str ''confirmed'']"
    by (rule AppState_def)
  show "length AppState = 11"
    by (simp add: AppState_def)
  show "distinct AppState"
    by (rule AppState_distinct)
  show "currentState (app_fire e s) \<in> set AppState"
    by (rule app_fire_mode)
  show "currentState (app_run evs app_state0) \<in> set AppState"
    by (rule app_run_mode)
  show "length (filter (\<lambda>m. m = currentState (app_run evs app_state0)) AppState) = 1"
    using AppState_distinct app_run_mode by (rule filter_eq_distinct)
  show "range (\<lambda>evs. currentState (app_run evs app_state0)) = set AppState"
    using AppState_reached app_run_mode by blast
qed

end
